theory Spec2Isabelle
  imports Main "HOL-Library.Sublist"
begin

section \<open>Python strings and the character tables\<close>

text \<open>
  A Python \<open>str\<close> is a sequence of Unicode code points, so it is modelled as a list of
  natural numbers; \<open>S\<close> turns an ASCII literal into such a list.
\<close>

type_synonym pystr = "nat list"

definition S :: "string \<Rightarrow> pystr" where
  "S cs = map of_char cs"

text \<open>
  The classes \<open>str.isspace\<close>, \<open>\\d\<close>, \<open>\\w\<close> and the mapping \<open>str.lower\<close> are
  fixed by the interpreter on ASCII and come from its Unicode database elsewhere. The
  database is not part of the repository: it is a parameter, a record of the tables
  read for code points from 128 on.
\<close>

record ucd =
  uc_isspace :: "nat \<Rightarrow> bool"
  uc_isdecimal :: "nat \<Rightarrow> bool"
  uc_isalnum :: "nat \<Rightarrow> bool"
  uc_lower :: "pystr \<Rightarrow> pystr"

definition ascii_letter :: "nat \<Rightarrow> bool" where
  "ascii_letter c = ((65 \<le> c \<and> c \<le> 90) \<or> (97 \<le> c \<and> c \<le> 122))"

definition ascii_digit :: "nat \<Rightarrow> bool" where
  "ascii_digit c = (48 \<le> c \<and> c \<le> 57)"

definition isspace :: "ucd \<Rightarrow> nat \<Rightarrow> bool" where
  "isspace u c = (if c < 128 then (9 \<le> c \<and> c \<le> 13) \<or> (28 \<le> c \<and> c \<le> 32)
                  else uc_isspace u c)"

definition isdecimal :: "ucd \<Rightarrow> nat \<Rightarrow> bool" where
  "isdecimal u c = (if c < 128 then ascii_digit c else uc_isdecimal u c)"

definition isword :: "ucd \<Rightarrow> nat \<Rightarrow> bool" where
  "isword u c = (if c < 128 then ascii_letter c \<or> ascii_digit c \<or> c = 95
                 else uc_isalnum u c)"

definition lower :: "ucd \<Rightarrow> pystr \<Rightarrow> pystr" where
  "lower u s = (if \<forall>c \<in> set s. c < 128
                then map (\<lambda>c. if 65 \<le> c \<and> c \<le> 90 then c + 32 else c) s
                else uc_lower u s)"

text \<open>Comparison of two strings with \<open><=\<close>: lexicographic on code points.\<close>

fun str_le :: "pystr \<Rightarrow> pystr \<Rightarrow> bool" where
  "str_le [] ys = True"
| "str_le (x # xs) [] = False"
| "str_le (x # xs) (y # ys) = (x < y \<or> (x = y \<and> str_le xs ys))"

text \<open>\<open>text.strip()\<close> and \<open>text.split()\<close> without arguments.\<close>

definition strip :: "ucd \<Rightarrow> pystr \<Rightarrow> pystr" where
  "strip u s = rev (dropWhile (isspace u) (rev (dropWhile (isspace u) s)))"

fun split_from :: "ucd \<Rightarrow> pystr \<Rightarrow> pystr \<Rightarrow> pystr list" where
  "split_from u cur [] = (if cur = [] then [] else [rev cur])"
| "split_from u cur (c # cs) =
     (if isspace u c
      then (if cur = [] then split_from u [] cs else rev cur # split_from u [] cs)
      else split_from u (c # cur) cs)"

definition split :: "ucd \<Rightarrow> pystr \<Rightarrow> pystr list" where
  "split u s = split_from u [] s"

section \<open>The admission filter (lib/language\_detect.py)\<close>

text \<open>\<open>'\\u4e00' <= char <= '\\u9fff'\<close> and \<open>'a' <= char.lower() <= 'z'\<close>.\<close>

definition is_cjk :: "nat \<Rightarrow> bool" where
  "is_cjk c = (19968 \<le> c \<and> c \<le> 40959)"

definition lower_in_az :: "ucd \<Rightarrow> nat \<Rightarrow> bool" where
  "lower_in_az u c = (str_le [97] (lower u [c]) \<and> str_le (lower u [c]) [122])"

text \<open>\<open>re.compile(r'[a-zA-Z]{2,}').search(text)\<close>: two adjacent ASCII letters somewhere.\<close>

fun contains_english :: "pystr \<Rightarrow> bool" where
  "contains_english (a # b # cs) =
     ((ascii_letter a \<and> ascii_letter b) \<or> contains_english (b # cs))"
| "contains_english cs = False"

text \<open>\<open>re.sub(r'[\\s\\d\\W]+', '', text)\<close> deletes every character of the class.\<close>

definition cleaned :: "ucd \<Rightarrow> pystr \<Rightarrow> pystr" where
  "cleaned u s = filter (\<lambda>c. \<not> (isspace u c \<or> isdecimal u c \<or> \<not> isword u c)) s"

fun pure_chinese_loop :: "ucd \<Rightarrow> pystr \<Rightarrow> bool" where
  "pure_chinese_loop u [] = True"
| "pure_chinese_loop u (c # cs) =
     (if is_cjk c then pure_chinese_loop u cs
      else if lower_in_az u c then False
      else pure_chinese_loop u cs)"

definition is_pure_chinese :: "ucd \<Rightarrow> pystr \<Rightarrow> bool" where
  "is_pure_chinese u s =
     (if cleaned u s = [] then True else pure_chinese_loop u (cleaned u s))"

fun count_letters :: "ucd \<Rightarrow> pystr \<Rightarrow> nat \<times> nat \<Rightarrow> nat \<times> nat" where
  "count_letters u [] acc = acc"
| "count_letters u (c # cs) (chinese_count, english_count) =
     (if is_cjk c then count_letters u cs (chinese_count + 1, english_count)
      else if lower_in_az u c then count_letters u cs (chinese_count, english_count + 1)
      else count_letters u cs (chinese_count, english_count))"

text \<open>
  The source compares \<open>chinese_count > (chinese_count + english_count) * 0.3\<close> in
  floating point. \<open>0.3\<close> is the double \<open>5404319552844595 / 2 ^ 54\<close>. The integer is
  converted to a double and the product is rounded to a double, both to 53 significant
  bits, to the nearest and to even on a tie (\<open>round53\<close>, on numerators over a fixed power
  of two); the comparison of an integer with a double is exact. \<open>times_03 n\<close> is the
  product as a multiple of \<open>2 ^ -54\<close>.
\<close>

fun bit_length :: "nat \<Rightarrow> nat" where
  "bit_length n = (if n = 0 then 0 else Suc (bit_length (n div 2)))"

definition round53 :: "nat \<Rightarrow> nat" where
  "round53 p =
     (if p < 2 ^ 53 then p
      else (let sh = bit_length p - 53; q = p div 2 ^ sh; r = p mod 2 ^ sh; h = 2 ^ (sh - 1)
            in (if h < r \<or> (r = h \<and> odd q) then q + 1 else q) * 2 ^ sh))"

definition double_03 :: nat where
  "double_03 = 5404319552844595"

definition times_03 :: "nat \<Rightarrow> nat" where
  "times_03 n = round53 (round53 n * double_03)"

definition exceeds_times_03 :: "nat \<Rightarrow> nat \<Rightarrow> bool" where
  "exceeds_times_03 c n = (times_03 n < c * 2 ^ 54)"

declare bit_length.simps [simp del]

definition is_primarily_chinese :: "ucd \<Rightarrow> pystr \<Rightarrow> bool" where
  "is_primarily_chinese u s =
     (case count_letters u s (0, 0) of (chinese_count, english_count) \<Rightarrow>
        if chinese_count + english_count = 0 then True
        else exceeds_times_03 chinese_count (chinese_count + english_count))"

definition should_check_grammar :: "ucd \<Rightarrow> pystr \<Rightarrow> bool" where
  "should_check_grammar u s =
     (if s = [] \<or> strip u s = [] then False
      else if take 1 (strip u s) = [47] then False
      else if is_pure_chinese u s then False
      else if is_primarily_chinese u s then False
      else if \<not> contains_english s then False
      else if length (split u s) < 3 then False
      else True)"

text \<open>
  The six rejection conditions as the specification words them. Latin letters are
  counted as the source decides them (a character that is no CJK ideograph and whose
  lower-case form lies between \<open>a\<close> and \<open>z\<close>); a run of Latin letters is a run of the
  letters \<open>a-z\<close>, \<open>A-Z\<close> that the pattern names; a token is a maximal run of
  characters that are not whitespace.
\<close>

definition latin_letter :: "ucd \<Rightarrow> nat \<Rightarrow> bool" where
  "latin_letter u c = (\<not> is_cjk c \<and> lower_in_az u c)"

definition spec_blank :: "ucd \<Rightarrow> pystr \<Rightarrow> bool" where
  "spec_blank u s = list_all (isspace u) s"

definition spec_slash :: "ucd \<Rightarrow> pystr \<Rightarrow> bool" where
  "spec_slash u s = (case strip u s of [] \<Rightarrow> False | c # cs \<Rightarrow> c = 47)"

definition spec_pure_cjk :: "ucd \<Rightarrow> pystr \<Rightarrow> bool" where
  "spec_pure_cjk u s =
     list_all is_cjk (filter (\<lambda>c. \<not> isspace u c \<and> \<not> isdecimal u c \<and> isword u c) s)"

definition spec_mostly_cjk :: "ucd \<Rightarrow> pystr \<Rightarrow> bool" where
  "spec_mostly_cjk u s =
     (let k = length (filter is_cjk s); l = length (filter (latin_letter u) s)
      in 10 * k > 3 * (k + l) \<or> (k = 0 \<and> l = 0))"

definition spec_no_latin_run :: "pystr \<Rightarrow> bool" where
  "spec_no_latin_run s =
     (\<not> list_ex (\<lambda>i. ascii_letter (s ! i) \<and> ascii_letter (s ! Suc i)) [0 ..< length s - 1])"

definition token_starts :: "ucd \<Rightarrow> pystr \<Rightarrow> nat list" where
  "token_starts u s =
     filter (\<lambda>i. \<not> isspace u (s ! i) \<and> (i = 0 \<or> isspace u (s ! (i - 1)))) [0 ..< length s]"

definition spec_few_tokens :: "ucd \<Rightarrow> pystr \<Rightarrow> bool" where
  "spec_few_tokens u s = (length (token_starts u s) < 3)"

definition spec_admit :: "ucd \<Rightarrow> pystr \<Rightarrow> bool" where
  "spec_admit u s =
     (\<not> spec_blank u s \<and> \<not> spec_slash u s \<and> \<not> spec_pure_cjk u s \<and>
      \<not> spec_mostly_cjk u s \<and> \<not> spec_no_latin_run s \<and> \<not> spec_few_tokens u s)"

text \<open>
  The number of tokens, counted along the text: \<open>p\<close> tells whether the previous
  character was whitespace (or the text starts here).
\<close>

fun starts :: "ucd \<Rightarrow> bool \<Rightarrow> pystr \<Rightarrow> nat" where
  "starts u p [] = 0"
| "starts u p (c # cs) = (if \<not> isspace u c \<and> p then 1 else 0) + starts u (isspace u c) cs"

text \<open>
  A sample of the tables, for the examples: the Unicode spaces, the CJK ideographs as
  letters, and no case pairs beyond ASCII.
\<close>

definition sample_ucd :: ucd where
  "sample_ucd =
     \<lparr>uc_isspace = (\<lambda>c. c \<in> {133, 160, 5760, 8232, 8233, 8239, 8287, 12288} \<or>
                        (8192 \<le> c \<and> c \<le> 8202)),
      uc_isdecimal = (\<lambda>c. False),
      uc_isalnum = is_cjk,
      uc_lower = (\<lambda>s. s)\<rparr>"

section \<open>JSON values and Python's operations on them\<close>

text \<open>
  The analyzer's answer, the hook input and the retry queue are JSON documents. Python's
  \<open>None\<close> is \<open>JNull\<close>; a JSON object is the list of its items, with distinct keys, as
  \<open>json.loads\<close> builds a \<open>dict\<close>. Numbers are integers here.
\<close>

datatype json =
    JNull
  | JBool bool
  | JInt int
  | JStr pystr
  | JArr "json list"
  | JObj "(pystr \<times> json) list"

datatype py_error =
    AttributeError
  | TypeError
  | KeyError
  | OSError
  | OverflowError
  | InterfaceError

text \<open>The truth value that \<open>if x\<close>, \<open>not x\<close> and \<open>x or y\<close> test.\<close>

fun truthy :: "json \<Rightarrow> bool" where
  "truthy JNull = False"
| "truthy (JBool b) = b"
| "truthy (JInt i) = (i \<noteq> 0)"
| "truthy (JStr s) = (s \<noteq> [])"
| "truthy (JArr xs) = (xs \<noteq> [])"
| "truthy (JObj kvs) = (kvs \<noteq> [])"

definition py_or :: "json \<Rightarrow> json \<Rightarrow> json" where
  "py_or a b = (if truthy a then a else b)"

text \<open>
  \<open>d.get(k, default)\<close> on a \<open>dict\<close> (\<open>dget\<close>), and on any value (\<open>get_method\<close>):
  only a \<open>dict\<close> has the method.
\<close>

definition dget :: "(pystr \<times> json) list \<Rightarrow> pystr \<Rightarrow> json \<Rightarrow> json" where
  "dget kvs k d = (case map_of kvs k of Some v \<Rightarrow> v | None \<Rightarrow> d)"

definition get_method :: "json \<Rightarrow> pystr \<Rightarrow> json \<Rightarrow> py_error + json" where
  "get_method x k d = (case x of JObj kvs \<Rightarrow> Inr (dget kvs k d) | _ \<Rightarrow> Inl AttributeError)"

text \<open>\<open>d[k]\<close> on a \<open>dict\<close>.\<close>

definition subscript :: "(pystr \<times> json) list \<Rightarrow> pystr \<Rightarrow> py_error + json" where
  "subscript kvs k = (case map_of kvs k of Some v \<Rightarrow> Inr v | None \<Rightarrow> Inl KeyError)"

text \<open>\<open>x.lower()\<close>: only a string has the method.\<close>

definition lower_method :: "ucd \<Rightarrow> json \<Rightarrow> py_error + pystr" where
  "lower_method u x = (case x of JStr s \<Rightarrow> Inr (lower u s) | _ \<Rightarrow> Inl AttributeError)"

text \<open>
  \<open>for x in v\<close>: a list gives its elements, a \<open>dict\<close> its keys, a string its
  characters; nothing else can be iterated.
\<close>

fun iterate :: "json \<Rightarrow> py_error + json list" where
  "iterate (JArr xs) = Inr xs"
| "iterate (JObj kvs) = Inr (map (\<lambda>kv. JStr (fst kv)) kvs)"
| "iterate (JStr s) = Inr (map (\<lambda>c. JStr [c]) s)"
| "iterate v = Inl TypeError"

section \<open>The structured store (lib/db.py)\<close>

text \<open>
  A calendar date is its proleptic Gregorian ordinal (\<open>date.toordinal()\<close>); the ISO
  text of a date orders as the ordinal does. A \<open>datetime\<close> is a date and the
  microseconds into that day. \<open>date(timestamp)\<close> in SQL takes the date.
\<close>

type_synonym date = int
type_synonym datetime = "int \<times> nat"

definition date_of :: "datetime \<Rightarrow> date" where
  "date_of t = fst t"

text \<open>
  What \<open>sqlite3\<close> accepts as a statement parameter: \<open>None\<close>, integers of 64 bits
  (\<open>bool\<close> is an integer) and strings. A list or a \<open>dict\<close> cannot be bound. A row
  keeps a value as it was bound; that SQLite stores an integer bound to a \<open>TEXT\<close> column
  as its decimal text is not modelled. Strings are taken to be encodable as UTF-8.
\<close>

datatype sqlval = SqlNull | SqlInt int | SqlText pystr

fun sql_bind :: "json \<Rightarrow> py_error + sqlval" where
  "sql_bind JNull = Inr SqlNull"
| "sql_bind (JBool b) = Inr (SqlInt (if b then 1 else 0))"
| "sql_bind (JInt i) =
     (if - (2 ^ 63) \<le> i \<and> i < 2 ^ 63 then Inr (SqlInt i) else Inl OverflowError)"
| "sql_bind (JStr s) = Inr (SqlText s)"
| "sql_bind (JArr xs) = Inl InterfaceError"
| "sql_bind (JObj kvs) = Inl InterfaceError"

record correction_row =
  c_id :: nat
  c_timestamp :: datetime
  c_original_text :: pystr
  c_user_text :: sqlval
  c_better_expression :: sqlval
  c_summary :: sqlval

record error_row =
  e_id :: nat
  e_correction_id :: nat
  e_original :: sqlval
  e_correction :: sqlval
  e_explanation :: sqlval
  e_category :: pystr

record daily_row =
  total_corrections :: nat
  spelling_count :: nat
  grammar_count :: nat
  style_count :: nat
  vocabulary_count :: nat

text \<open>
  The three tables. \<open>daily_stats\<close> is keyed by its primary key, the date; the two
  counters are the \<open>AUTOINCREMENT\<close> sequences (the last identifier given out).
\<close>

record database =
  t_corrections :: "correction_row list"
  t_errors :: "error_row list"
  t_daily_stats :: "date \<rightharpoonup> daily_row"
  seq_corrections :: nat
  seq_errors :: nat

definition empty_db :: database where
  "empty_db = \<lparr>t_corrections = [], t_errors = [], t_daily_stats = Map.empty,
                seq_corrections = 0, seq_errors = 0\<rparr>"

definition category_names :: "pystr list" where
  "category_names = [S ''spelling'', S ''grammar'', S ''style'', S ''vocabulary'']"

text \<open>\<open>INSERT INTO corrections\<close>, executed in the open transaction \<open>tx\<close>.\<close>

definition insert_correction ::
  "datetime \<Rightarrow> pystr \<Rightarrow> json \<Rightarrow> json \<Rightarrow> json \<Rightarrow> database \<Rightarrow> py_error + database" where
  "insert_correction timestamp original_text user_text better_expression summary tx =
     (case sql_bind user_text of Inl e \<Rightarrow> Inl e | Inr ut \<Rightarrow>
      case sql_bind better_expression of Inl e \<Rightarrow> Inl e | Inr be \<Rightarrow>
      case sql_bind summary of Inl e \<Rightarrow> Inl e | Inr su \<Rightarrow>
        Inr (tx\<lparr>t_corrections := t_corrections tx @
                   [\<lparr>c_id = seq_corrections tx + 1, c_timestamp = timestamp,
                     c_original_text = original_text, c_user_text = ut,
                     c_better_expression = be, c_summary = su\<rparr>],
                 seq_corrections := seq_corrections tx + 1\<rparr>))"

text \<open>
  The category of a finding as the loop normalizes it: \<open>error.get("category",
  "grammar").lower()\<close>, replaced by \<open>grammar\<close> when it is no key of
  \<open>category_counts\<close>.
\<close>

definition normalized_category :: "ucd \<Rightarrow> json \<Rightarrow> py_error + pystr" where
  "normalized_category u error =
     (case get_method error (S ''category'') (JStr (S ''grammar'')) of Inl e \<Rightarrow> Inl e
      | Inr c \<Rightarrow>
     (case lower_method u c of Inl e \<Rightarrow> Inl e
      | Inr category \<Rightarrow>
        Inr (if category \<notin> set category_names then S ''grammar'' else category)))"

text \<open>\<open>INSERT INTO errors\<close> for one finding whose category is already normalized.\<close>

definition insert_error :: "nat \<Rightarrow> json \<Rightarrow> pystr \<Rightarrow> database \<Rightarrow> py_error + database" where
  "insert_error correction_id error category tx =
     (case get_method error (S ''original'') (JStr []) of Inl e \<Rightarrow> Inl e | Inr v1 \<Rightarrow>
      case get_method error (S ''correction'') (JStr []) of Inl e \<Rightarrow> Inl e | Inr v2 \<Rightarrow>
      case get_method error (S ''explanation'') (JStr []) of Inl e \<Rightarrow> Inl e | Inr v3 \<Rightarrow>
      case sql_bind v1 of Inl e \<Rightarrow> Inl e | Inr original \<Rightarrow>
      case sql_bind v2 of Inl e \<Rightarrow> Inl e | Inr correction \<Rightarrow>
      case sql_bind v3 of Inl e \<Rightarrow> Inl e | Inr explanation \<Rightarrow>
        Inr (tx\<lparr>t_errors := t_errors tx @
                   [\<lparr>e_id = seq_errors tx + 1, e_correction_id = correction_id,
                     e_original = original, e_correction = correction,
                     e_explanation = explanation, e_category = category\<rparr>],
                 seq_errors := seq_errors tx + 1\<rparr>))"

text \<open>The loop \<open>for error in errors\<close>, with \<open>category_counts\<close> and the transaction.\<close>

fun insert_errors ::
  "ucd \<Rightarrow> nat \<Rightarrow> json list \<Rightarrow> (pystr \<Rightarrow> nat) \<Rightarrow> database \<Rightarrow>
   py_error + ((pystr \<Rightarrow> nat) \<times> database)" where
  "insert_errors u correction_id [] category_counts tx = Inr (category_counts, tx)"
| "insert_errors u correction_id (error # rest) category_counts tx =
     (case normalized_category u error of Inl e \<Rightarrow> Inl e
      | Inr category \<Rightarrow>
     (case insert_error correction_id error category tx of Inl e \<Rightarrow> Inl e
      | Inr tx' \<Rightarrow>
        insert_errors u correction_id rest
          (category_counts(category := category_counts category + 1)) tx'))"

text \<open>\<open>INSERT INTO daily_stats ... ON CONFLICT(date) DO UPDATE\<close>.\<close>

definition upsert_daily_stats :: "date \<Rightarrow> (pystr \<Rightarrow> nat) \<Rightarrow> database \<Rightarrow> database" where
  "upsert_daily_stats today category_counts tx =
     tx\<lparr>t_daily_stats := (t_daily_stats tx)(today \<mapsto>
       (case t_daily_stats tx today of
          None \<Rightarrow>
            \<lparr>total_corrections = 1,
              spelling_count = category_counts (S ''spelling''),
              grammar_count = category_counts (S ''grammar''),
              style_count = category_counts (S ''style''),
              vocabulary_count = category_counts (S ''vocabulary'')\<rparr>
        | Some row \<Rightarrow>
            \<lparr>total_corrections = total_corrections row + 1,
              spelling_count = spelling_count row + category_counts (S ''spelling''),
              grammar_count = grammar_count row + category_counts (S ''grammar''),
              style_count = style_count row + category_counts (S ''style''),
              vocabulary_count = vocabulary_count row + category_counts (S ''vocabulary'')\<rparr>))\<rparr>"

text \<open>
  The statements of \<open>save_correction\<close> up to \<open>conn.commit()\<close>, on the transaction that
  the first \<open>INSERT\<close> opens. \<open>now\<close> is what \<open>datetime.now()\<close> returns and \<open>today\<close> what
  \<open>date.today()\<close> returns later in the call. \<open>init_db\<close> creates the tables when they are
  missing and touches no row.
\<close>

definition save_correction_tx ::
  "ucd \<Rightarrow> datetime \<Rightarrow> date \<Rightarrow> pystr \<Rightarrow> json \<Rightarrow> json \<Rightarrow> json \<Rightarrow> json \<Rightarrow> database \<Rightarrow>
   py_error + (nat \<times> database)" where
  "save_correction_tx u now today original_text user_text errors better_expression summary d =
     (case insert_correction now original_text user_text better_expression summary d of
        Inl e \<Rightarrow> Inl e
      | Inr tx1 \<Rightarrow>
     (case iterate errors of Inl e \<Rightarrow> Inl e
      | Inr es \<Rightarrow>
     (case insert_errors u (seq_corrections tx1) es (\<lambda>c. 0) tx1 of Inl e \<Rightarrow> Inl e
      | Inr (category_counts, tx2) \<Rightarrow>
        Inr (seq_corrections tx1, upsert_daily_stats today category_counts tx2))))"

text \<open>
  \<open>save_correction\<close>: the result and the store after the call. An exception leaves the
  function before \<open>conn.commit()\<close>; the connection is dropped with its transaction
  open, and SQLite discards what the transaction did.
\<close>

definition save_correction ::
  "ucd \<Rightarrow> datetime \<Rightarrow> date \<Rightarrow> pystr \<Rightarrow> json \<Rightarrow> json \<Rightarrow> json \<Rightarrow> json \<Rightarrow> database \<Rightarrow>
   (py_error + nat) \<times> database" where
  "save_correction u now today original_text user_text errors better_expression summary d =
     (case save_correction_tx u now today original_text user_text errors better_expression
             summary d of
        Inl e \<Rightarrow> (Inl e, d)
      | Inr (correction_id, tx) \<Rightarrow> (Inr correction_id, tx))"

text \<open>
  \<open>timedelta(days=k)\<close> and \<open>date + timedelta\<close>: both raise \<open>OverflowError\<close> outside
  their ranges (dates run from 0001-01-01 to 9999-12-31, ordinals 1 to 3652059).
  \<open>date.weekday()\<close> is 0 on Monday; ordinal 1 is a Monday.
\<close>

definition timedelta :: "int \<Rightarrow> py_error + int" where
  "timedelta k = (if - 999999999 \<le> k \<and> k \<le> 999999999 then Inr k else Inl OverflowError)"

definition date_plus :: "date \<Rightarrow> int \<Rightarrow> py_error + date" where
  "date_plus d k = (if 1 \<le> d + k \<and> d + k \<le> 3652059 then Inr (d + k) else Inl OverflowError)"

definition weekday :: "date \<Rightarrow> int" where
  "weekday d = (d + 6) mod 7"

record weekly_stats =
  week_start :: date
  week_end :: date
  week_total_corrections :: nat
  week_spelling_count :: nat
  week_grammar_count :: nat
  week_style_count :: nat
  week_vocabulary_count :: nat

text \<open>The rows of \<open>daily_stats\<close> with \<open>date BETWEEN lo AND hi\<close>.\<close>

definition rows_between :: "database \<Rightarrow> date \<Rightarrow> date \<Rightarrow> daily_row list" where
  "rows_between d lo hi = List.map_filter (t_daily_stats d) [lo .. hi]"

text \<open>
  \<open>get_weekly_stats\<close>. The query selects \<open>COUNT(*) as total_corrections\<close>, the number
  of rows, and \<open>SUM\<close> of each category column; \<open>or 0\<close> turns the \<open>NULL\<close> of an empty
  sum into 0.
\<close>

definition get_weekly_stats :: "date \<Rightarrow> int \<Rightarrow> database \<Rightarrow> py_error + weekly_stats" where
  "get_weekly_stats today weeks_back d =
     (case timedelta (weekday today + 7 * weeks_back) of Inl e \<Rightarrow> Inl e | Inr back \<Rightarrow>
      case date_plus today (- back) of Inl e \<Rightarrow> Inl e | Inr start_of_week \<Rightarrow>
      case date_plus start_of_week 6 of Inl e \<Rightarrow> Inl e | Inr end_of_week \<Rightarrow>
        (let rows = rows_between d start_of_week end_of_week in
         Inr \<lparr>week_start = start_of_week, week_end = end_of_week,
              week_total_corrections = length rows,
              week_spelling_count = sum_list (map spelling_count rows),
              week_grammar_count = sum_list (map grammar_count rows),
              week_style_count = sum_list (map style_count rows),
              week_vocabulary_count = sum_list (map vocabulary_count rows)\<rparr>))"

text \<open>
  \<open>get_all_time_stats\<close>, the sibling query over every row: \<open>COUNT(*) as total_days\<close>
  and \<open>SUM(total_corrections) as total_corrections\<close>. The store is read through the
  dates \<open>ds\<close> that have a row.
\<close>

record all_time_stats =
  total_days :: nat
  all_total_corrections :: nat

definition get_all_time_stats :: "date list \<Rightarrow> database \<Rightarrow> all_time_stats" where
  "get_all_time_stats ds d =
     (let rows = List.map_filter (t_daily_stats d) ds in
      \<lparr>total_days = length rows,
       all_total_corrections = sum_list (map total_corrections rows)\<rparr>)"

text \<open>
  \<open>get_daily_stats\<close> for an explicit date: the row, or zeros when the date has none.
\<close>

definition get_daily_stats :: "date \<Rightarrow> database \<Rightarrow> daily_row" where
  "get_daily_stats target_date d =
     (case t_daily_stats d target_date of
        Some row \<Rightarrow> row
      | None \<Rightarrow> \<lparr>total_corrections = 0, spelling_count = 0, grammar_count = 0,
                  style_count = 0, vocabulary_count = 0\<rparr>)"

text \<open>
  The number of findings in a list that the loop files under a category, and the
  invariant of the daily counter: the total of each date is the number of corrections
  whose timestamp lies on that date.
\<close>

definition count_category :: "ucd \<Rightarrow> json list \<Rightarrow> pystr \<Rightarrow> nat" where
  "count_category u es c = length (filter (\<lambda>e. normalized_category u e = Inr c) es)"

definition counter_consistent :: "database \<Rightarrow> bool" where
  "counter_consistent d =
     (\<forall>day. total_corrections (get_daily_stats day d) =
            length (filter (\<lambda>c. date_of (c_timestamp c) = day) (t_corrections d)))"

text \<open>Sample data: a finding, and a store with one day that counts three corrections.\<close>

definition finding :: "string \<Rightarrow> string \<Rightarrow> json \<Rightarrow> json" where
  "finding a b c =
     JObj [(S ''original'', JStr (S a)), (S ''correction'', JStr (S b)),
           (S ''explanation'', JStr (S ''usage'')), (S ''category'', c)]"

definition week_db :: database where
  "week_db = empty_db\<lparr>t_daily_stats :=
     [739923 \<mapsto> \<lparr>total_corrections = 3, spelling_count = 1, grammar_count = 2,
                   style_count = 0, vocabulary_count = 0\<rparr>]\<rparr>"

section \<open>The analyzer gateway (lib/claude\_api.py)\<close>

text \<open>
  \<open>re.search(r'\\{[\\s\\S]*\\}', result_text)\<close>: the match starts at the first opening
  brace and, being greedy, ends at the last closing brace after it; there is none when
  no closing brace follows the first opening one. The codes of the braces are 123 and 125.
\<close>

definition find_braces :: "pystr \<Rightarrow> pystr option" where
  "find_braces t =
     (let r = dropWhile (\<lambda>c. c \<noteq> 123) t;
          m = rev (dropWhile (\<lambda>c. c \<noteq> 125) (rev r))
      in if m = [] then None else Some m)"

text \<open>
  The two parsing attempts on the response text. \<open>loads\<close> is \<open>json.loads\<close>, a parameter:
  \<open>None\<close> is its \<open>JSONDecodeError\<close>. The result \<open>JNull\<close> is Python's \<open>None\<close>, whether it
  comes from \<open>return None\<close> or from parsing the text \<open>null\<close>.
\<close>

definition parse_response :: "(pystr \<Rightarrow> json option) \<Rightarrow> pystr \<Rightarrow> json" where
  "parse_response loads result_text =
     (case loads result_text of
        Some v \<Rightarrow> v
      | None \<Rightarrow>
         (case find_braces result_text of
            Some m \<Rightarrow> (case loads m of Some v \<Rightarrow> v | None \<Rightarrow> JNull)
          | None \<Rightarrow> JNull))"

text \<open>
  What a run depends on and the repository does not contain: the Unicode tables, whether
  the \<open>anthropic\<close> package imports, the API key of the environment, the service
  (\<open>api_reply n msg\<close> is the text of its answer to the \<open>n\<close>-th call of the gateway, made
  for the message \<open>msg\<close>, or the exception of that call), \<open>json.loads\<close>, the clock
  (\<open>clock n\<close> is the \<open>n\<close>-th reading), and whether the file system lets the log directory
  be created, the log file be appended to and the queue file be written.
\<close>

record env =
  tables :: ucd
  anthropic_installed :: bool
  api_key :: "pystr option"
  api_reply :: "nat \<Rightarrow> pystr \<Rightarrow> py_error + pystr"
  json_loads :: "pystr \<Rightarrow> json option"
  clock :: "nat \<Rightarrow> datetime"
  mkdir_ok :: bool
  log_write_ok :: bool
  queue_write_ok :: bool

text \<open>
  The value \<open>analyze_grammar\<close> returns on the \<open>n\<close>-th call of the gateway. Every
  exception of the request, and of reading \<open>response.content[0].text\<close>, is caught and
  gives \<open>None\<close>; creating the client object is taken to succeed. The instruction text
  that the request wraps around the message is fixed, so the answer is a function of the
  message.
\<close>

definition analyze_result :: "env \<Rightarrow> nat \<Rightarrow> pystr \<Rightarrow> json" where
  "analyze_result env n user_message =
     (if \<not> anthropic_installed env then JNull
      else case api_key env of
        None \<Rightarrow> JNull
      | Some key \<Rightarrow>
          if key = [] then JNull
          else (case api_reply env n user_message of
                  Inl e \<Rightarrow> JNull
                | Inr text \<Rightarrow> parse_response (json_loads env) (strip (tables env) text)))"

section \<open>The state of a run\<close>

text \<open>
  One block of the daily log, as the list \<open>lines\<close> that \<open>save_correction\<close> of
  lib/obsidian.py joins and appends; a line keeps the values that its format string
  interpolates, not their rendering.
\<close>

datatype log_line =
    Heading datetime
  | Original json
  | ErrorsHeader
  | ErrorItem json json json json
  | Blank
  | Better json
  | Summary json
  | Separator

text \<open>The calls a script makes to its collaborators, in the order it makes them.\<close>

datatype call = Analyze pystr | Sleep nat | LogAppend | DbRecord

text \<open>
  The store, the log documents (each appended block with the date of its file), the
  retry queue as \<open>load_retry_queue\<close> reads it (a missing or unreadable file reads as the
  empty list), the calls made so far, and how often the gateway was called and the
  clock was read.
\<close>

record world =
  db :: database
  obsidian :: "(date \<times> log_line list) list"
  retry_queue :: "json list"
  calls :: "call list"
  gateway_calls :: nat
  clock_reads :: nat

definition empty_world :: world where
  "empty_world = \<lparr>db = empty_db, obsidian = [], retry_queue = [], calls = [],
                   gateway_calls = 0, clock_reads = 0\<rparr>"

definition analyze_grammar :: "env \<Rightarrow> pystr \<Rightarrow> world \<Rightarrow> json \<times> world" where
  "analyze_grammar env user_message w =
     (analyze_result env (gateway_calls w) user_message,
      w\<lparr>calls := calls w @ [Analyze user_message], gateway_calls := gateway_calls w + 1\<rparr>)"

section \<open>The log writer (lib/obsidian.py)\<close>

text \<open>The loop \<open>for err in analysis['errors']\<close> that formats one line per finding.\<close>

fun error_items :: "json list \<Rightarrow> py_error + log_line list" where
  "error_items [] = Inr []"
| "error_items (err # rest) =
     (case err of
        JObj kvs \<Rightarrow>
          (case subscript kvs (S ''original'') of Inl e \<Rightarrow> Inl e | Inr original \<Rightarrow>
           case subscript kvs (S ''correction'') of Inl e \<Rightarrow> Inl e | Inr correction \<Rightarrow>
           case error_items rest of Inl e \<Rightarrow> Inl e | Inr items \<Rightarrow>
             Inr (ErrorItem original correction (dget kvs (S ''explanation'') (JStr []))
                    (dget kvs (S ''category'') (JStr (S ''grammar''))) # items))
      | _ \<Rightarrow> Inl AttributeError)"

definition log_lines :: "datetime \<Rightarrow> pystr \<Rightarrow> json \<Rightarrow> py_error + log_line list" where
  "log_lines timestamp user_message analysis =
     (case analysis of
        JObj kvs \<Rightarrow>
          (let display_text = py_or (dget kvs (S ''user_text'') JNull) (JStr user_message);
               better = dget kvs (S ''better_expression'') JNull;
               summary = dget kvs (S ''summary'') JNull;
               tail = (if truthy better then [Better better] else []) @
                      (if truthy summary then [Summary summary] else []) @ [Separator]
           in if truthy (dget kvs (S ''has_errors'') JNull) \<and>
                 truthy (dget kvs (S ''errors'') JNull)
              then (case iterate (dget kvs (S ''errors'') JNull) of Inl e \<Rightarrow> Inl e | Inr errs \<Rightarrow>
                    case error_items errs of Inl e \<Rightarrow> Inl e | Inr items \<Rightarrow>
                      Inr ([Heading timestamp, Original display_text] @
                           [ErrorsHeader] @ items @ [Blank] @ tail))
              else Inr ([Heading timestamp, Original display_text] @ tail))
      | _ \<Rightarrow> Inl AttributeError)"

text \<open>
  \<open>save_correction\<close> of lib/obsidian.py, imported by the scripts as \<open>save_to_obsidian\<close>.
  \<open>get_daily_file_path\<close> reads the clock for the date and creates the directory
  (\<open>mkdir\<close>, outside any \<open>try\<close>); the timestamp is a second reading; only \<open>open\<close> and
  \<open>write\<close> are inside the \<open>try\<close> whose handler returns \<open>False\<close>.
\<close>

definition save_to_obsidian ::
  "env \<Rightarrow> pystr \<Rightarrow> json \<Rightarrow> world \<Rightarrow> (py_error + bool) \<times> world" where
  "save_to_obsidian env user_message analysis w =
     (let target_date = date_of (clock env (clock_reads w));
          w1 = w\<lparr>calls := calls w @ [LogAppend], clock_reads := clock_reads w + 1\<rparr>
      in if \<not> mkdir_ok env then (Inl OSError, w1)
         else
          (let timestamp = clock env (clock_reads w1);
               w2 = w1\<lparr>clock_reads := clock_reads w1 + 1\<rparr>
           in case log_lines timestamp user_message analysis of
                Inl e \<Rightarrow> (Inl e, w2)
              | Inr lines \<Rightarrow>
                  if log_write_ok env
                  then (Inr True, w2\<lparr>obsidian := obsidian w2 @ [(target_date, lines)]\<rparr>)
                  else (Inr False, w2)))"

text \<open>
  \<open>save_correction\<close> of lib/db.py as the scripts call it (\<open>save_to_db\<close>), with its two
  readings of the clock.
\<close>

definition save_to_db ::
  "env \<Rightarrow> pystr \<Rightarrow> json \<Rightarrow> json \<Rightarrow> json \<Rightarrow> json \<Rightarrow> world \<Rightarrow> (py_error + nat) \<times> world" where
  "save_to_db env original_text user_text errors better_expression summary w =
     (case save_correction (tables env) (clock env (clock_reads w))
             (date_of (clock env (clock_reads w + 1)))
             original_text user_text errors better_expression summary (db w) of
        (r, d) \<Rightarrow>
          (r, w\<lparr>db := d, calls := calls w @ [DbRecord], clock_reads := clock_reads w + 2\<rparr>))"

section \<open>The hook (scripts/check\_grammar.py)\<close>

text \<open>
  The \<open>try\<close> block of \<open>main\<close> on the parsed hook input: the exception that leaves it, if
  any, and the state at that point. A prompt that is no string is rejected when it
  is falsy and raises at \<open>text.strip()\<close> otherwise. The notification and the messages
  on the standard error channel are not part of the state; what is computed for them
  after the two saves can only raise into the same handler.
\<close>

definition check_grammar_try :: "env \<Rightarrow> json \<Rightarrow> world \<Rightarrow> (py_error + unit) \<times> world" where
  "check_grammar_try env input_data w =
     (case input_data of
        JObj data \<Rightarrow>
          (case py_or (dget data (S ''prompt'') (JStr []))
                      (dget data (S ''user_prompt'') (JStr [])) of
             JStr user_prompt \<Rightarrow>
               if \<not> should_check_grammar (tables env) user_prompt then (Inr (), w)
               else
                (case analyze_grammar env user_prompt w of (analysis, w1) \<Rightarrow>
                   if truthy analysis then
                     (case analysis of
                        JObj kvs \<Rightarrow>
                          if truthy (dget kvs (S ''skipped'') JNull) then (Inr (), w1)
                          else if truthy (dget kvs (S ''has_errors'') JNull) \<or>
                                  truthy (dget kvs (S ''better_expression'') JNull)
                          then
                            (case save_to_obsidian env user_prompt analysis w1 of
                               (Inl e, w2) \<Rightarrow> (Inl e, w2)
                             | (Inr ok, w2) \<Rightarrow>
                                (case save_to_db env user_prompt
                                        (dget kvs (S ''user_text'') (JStr user_prompt))
                                        (dget kvs (S ''errors'') (JArr []))
                                        (dget kvs (S ''better_expression'') JNull)
                                        (dget kvs (S ''summary'') JNull) w2 of
                                   (Inl e, w3) \<Rightarrow> (Inl e, w3)
                                 | (Inr correction_id, w3) \<Rightarrow> (Inr (), w3)))
                          else (Inr (), w1)
                      | _ \<Rightarrow> (Inl AttributeError, w1))
                   else (Inr (), w1))
           | v \<Rightarrow> if truthy v then (Inl AttributeError, w) else (Inr (), w))
      | _ \<Rightarrow> (Inl AttributeError, w))"

text \<open>
  \<open>main\<close>: whatever happens in the \<open>try\<close> block, the hook prints the empty JSON object
  and exits with status 0.
\<close>

definition check_grammar_main :: "env \<Rightarrow> json \<Rightarrow> world \<Rightarrow> json \<times> world" where
  "check_grammar_main env input_data w = (JObj [], snd (check_grammar_try env input_data w))"

section \<open>The retry run (scripts/recall.py)\<close>

definition process_analysis ::
  "env \<Rightarrow> pystr \<Rightarrow> json \<Rightarrow> world \<Rightarrow> (py_error + bool) \<times> world" where
  "process_analysis env user_prompt analysis w =
     (case analysis of
        JObj kvs \<Rightarrow>
          if truthy (dget kvs (S ''skipped'') JNull) then (Inr False, w)
          else if truthy (dget kvs (S ''has_errors'') JNull) \<or>
                  truthy (dget kvs (S ''better_expression'') JNull)
          then
            (case save_to_obsidian env user_prompt analysis w of
               (Inl e, w1) \<Rightarrow> (Inl e, w1)
             | (Inr ok, w1) \<Rightarrow>
                (case save_to_db env user_prompt
                        (dget kvs (S ''user_text'') (JStr user_prompt))
                        (dget kvs (S ''errors'') (JArr []))
                        (dget kvs (S ''better_expression'') JNull)
                        (dget kvs (S ''summary'') JNull) w1 of
                   (Inl e, w2) \<Rightarrow> (Inl e, w2)
                 | (Inr correction_id, w2) \<Rightarrow> (Inr True, w2)))
          else (Inr False, w)
      | _ \<Rightarrow> (Inl AttributeError, w))"

text \<open>
  The loop \<open>for attempt in range(2)\<close>: a second call, after two seconds of sleep, only
  when the first returned \<open>None\<close>.
\<close>

definition analyze_with_retry :: "env \<Rightarrow> pystr \<Rightarrow> world \<Rightarrow> json \<times> world" where
  "analyze_with_retry env user_prompt w =
     (case analyze_grammar env user_prompt w of
        (analysis, w1) \<Rightarrow>
          if analysis \<noteq> JNull then (analysis, w1)
          else analyze_grammar env user_prompt (w1\<lparr>calls := calls w1 @ [Sleep 2]\<rparr>))"

record drain_counts =
  success_count :: nat
  still_failed :: "json list"
  findings_count :: nat

text \<open>
  The loop \<open>for item in queue\<close>. \<open>item.get\<close> needs a \<open>dict\<close>; a prompt that is truthy
  and no string raises, at the slice \<open>user_prompt[:50]\<close> or, for a list, at
  \<open>text.strip()\<close>. Nothing catches an exception here.
\<close>

fun drain_loop ::
  "env \<Rightarrow> json list \<Rightarrow> drain_counts \<Rightarrow> world \<Rightarrow> (py_error + drain_counts) \<times> world" where
  "drain_loop env [] acc w = (Inr acc, w)"
| "drain_loop env (item # rest) acc w =
     (case get_method item (S ''prompt'') (JStr []) of
        Inl e \<Rightarrow> (Inl e, w)
      | Inr user_prompt \<Rightarrow>
          if \<not> truthy user_prompt then drain_loop env rest acc w
          else
           (case user_prompt of
              JStr s \<Rightarrow>
                if \<not> should_check_grammar (tables env) s
                then drain_loop env rest (acc\<lparr>success_count := success_count acc + 1\<rparr>) w
                else
                 (case analyze_with_retry env s w of (analysis, w1) \<Rightarrow>
                    if analysis = JNull
                    then drain_loop env rest (acc\<lparr>still_failed := still_failed acc @ [item]\<rparr>) w1
                    else
                     (case process_analysis env s analysis w1 of
                        (Inl e, w2) \<Rightarrow> (Inl e, w2)
                      | (Inr had_findings, w2) \<Rightarrow>
                          drain_loop env rest
                            (acc\<lparr>success_count := success_count acc + 1,
                                 findings_count :=
                                   findings_count acc + (if had_findings then 1 else 0)\<rparr>)
                            w2))
            | JArr xs \<Rightarrow> (Inl AttributeError, w)
            | _ \<Rightarrow> (Inl TypeError, w)))"

text \<open>The summary that \<open>main\<close> prints and notifies.\<close>

datatype drain_msg =
    NoFailedChecks
  | Retried nat nat nat
  | AllCompleted nat nat

text \<open>
  \<open>main\<close> of the retry run: an empty queue is left alone; otherwise the loop runs and
  \<open>save_retry_queue(still_failed)\<close> replaces the file, raising when it cannot be written.
\<close>

definition recall_main :: "env \<Rightarrow> world \<Rightarrow> (py_error + drain_msg) \<times> world" where
  "recall_main env w =
     (let queue = retry_queue w in
      if queue = [] then (Inr NoFailedChecks, w)
      else
       (case drain_loop env queue
               \<lparr>success_count = 0, still_failed = [], findings_count = 0\<rparr> w of
          (Inl e, w1) \<Rightarrow> (Inl e, w1)
        | (Inr acc, w1) \<Rightarrow>
            if \<not> queue_write_ok env then (Inl OSError, w1)
            else
             (Inr (if still_failed acc \<noteq> []
                   then Retried (length queue) (success_count acc) (length (still_failed acc))
                   else AllCompleted (success_count acc) (findings_count acc)),
              w1\<lparr>retry_queue := still_failed acc\<rparr>)))"

text \<open>
  The queue that a retry run must leave, in the words of the specification: entries are
  taken in order; an entry without a text or whose text the admission filter rejects is
  dropped; otherwise the gateway is called, a second time when the first call failed;
  the entry stays exactly when both calls failed. \<open>n\<close> counts the gateway calls made
  before the entry. \<open>has_prompt\<close> tells the entries that carry a text to retry.
\<close>

fun spec_still_queued :: "env \<Rightarrow> nat \<Rightarrow> json list \<Rightarrow> json list" where
  "spec_still_queued env n [] = []"
| "spec_still_queued env n (item # rest) =
     (case get_method item (S ''prompt'') (JStr []) of
        Inr (JStr s) \<Rightarrow>
          if s = [] \<or> \<not> should_check_grammar (tables env) s
          then spec_still_queued env n rest
          else if analyze_result env n s \<noteq> JNull then spec_still_queued env (n + 1) rest
          else if analyze_result env (n + 1) s \<noteq> JNull then spec_still_queued env (n + 2) rest
          else item # spec_still_queued env (n + 2) rest
      | _ \<Rightarrow> spec_still_queued env n rest)"

text \<open>
  The state that a retry run must leave, apart from the queue, in the same words: an
  entry that is dropped without analysis changes nothing; an admitted entry is analyzed
  with its retry, and an outcome that is not \<open>None\<close> goes through \<open>process_analysis\<close>.
\<close>

fun spec_drain_state :: "env \<Rightarrow> json list \<Rightarrow> world \<Rightarrow> world" where
  "spec_drain_state env [] w = w"
| "spec_drain_state env (item # rest) w =
     (case get_method item (S ''prompt'') (JStr []) of
        Inr (JStr s) \<Rightarrow>
          if s = [] \<or> \<not> should_check_grammar (tables env) s
          then spec_drain_state env rest w
          else (case analyze_with_retry env s w of
                  (analysis, w1) \<Rightarrow>
                    if analysis = JNull then spec_drain_state env rest w1
                    else spec_drain_state env rest (snd (process_analysis env s analysis w1)))
      | _ \<Rightarrow> spec_drain_state env rest w)"

definition has_prompt :: "json \<Rightarrow> bool" where
  "has_prompt item =
     (case get_method item (S ''prompt'') (JStr []) of Inr v \<Rightarrow> truthy v | Inl e \<Rightarrow> False)"

text \<open>
  Inputs on which a retry run raises nothing. A value is bindable when \<open>sqlite3\<close>
  accepts it as a parameter; a finding can be stored when it is a \<open>dict\<close> whose
  category is a string and whose other fields are bindable, and be logged when it has
  the keys \<open>original\<close> and \<open>correction\<close>. An analysis can be processed when it is a
  \<open>dict\<close> that is skipped, or has nothing to record, or can be logged and stored with
  the log directory in place. A queue entry is in order when it is a \<open>dict\<close> whose
  prompt is a string or falsy; the gateway is in order when each of its results is
  \<open>None\<close> or can be processed.
\<close>

definition bindable :: "json \<Rightarrow> bool" where
  "bindable v = (case sql_bind v of Inr x \<Rightarrow> True | Inl e \<Rightarrow> False)"

definition finding_storable :: "ucd \<Rightarrow> json \<Rightarrow> bool" where
  "finding_storable u error =
     (case error of
        JObj kvs \<Rightarrow>
          (case dget kvs (S ''category'') (JStr (S ''grammar'')) of
             JStr c \<Rightarrow> True | _ \<Rightarrow> False) \<and>
          bindable (dget kvs (S ''original'') (JStr [])) \<and>
          bindable (dget kvs (S ''correction'') (JStr [])) \<and>
          bindable (dget kvs (S ''explanation'') (JStr []))
      | _ \<Rightarrow> False)"

definition finding_loggable :: "json \<Rightarrow> bool" where
  "finding_loggable err =
     (case err of
        JObj kvs \<Rightarrow> map_of kvs (S ''original'') \<noteq> None \<and> map_of kvs (S ''correction'') \<noteq> None
      | _ \<Rightarrow> False)"

definition process_ok :: "env \<Rightarrow> json \<Rightarrow> bool" where
  "process_ok env analysis =
     (case analysis of
        JObj kvs \<Rightarrow>
          truthy (dget kvs (S ''skipped'') JNull) \<or>
          \<not> (truthy (dget kvs (S ''has_errors'') JNull) \<or>
             truthy (dget kvs (S ''better_expression'') JNull)) \<or>
          (mkdir_ok env \<and>
           (case iterate (dget kvs (S ''errors'') (JArr [])) of
              Inl e \<Rightarrow> False
            | Inr es \<Rightarrow>
                list_all (finding_storable (tables env)) es \<and>
                (truthy (dget kvs (S ''has_errors'') JNull) \<longrightarrow> list_all finding_loggable es)) \<and>
           bindable (dget kvs (S ''user_text'') (JStr [])) \<and>
           bindable (dget kvs (S ''better_expression'') JNull) \<and>
           bindable (dget kvs (S ''summary'') JNull))
      | _ \<Rightarrow> False)"

definition entry_ok :: "json \<Rightarrow> bool" where
  "entry_ok item =
     (case item of
        JObj kvs \<Rightarrow>
          (case dget kvs (S ''prompt'') (JStr []) of JStr s \<Rightarrow> True | v \<Rightarrow> \<not> truthy v)
      | _ \<Rightarrow> False)"

definition gateway_ok :: "env \<Rightarrow> bool" where
  "gateway_ok env =
     (\<forall>n s. analyze_result env n s = JNull \<or> process_ok env (analyze_result env n s))"

section \<open>Sample data\<close>

text \<open>
  A message, the hook input that carries it, an answer of the service that wraps a JSON
  object in prose, and what \<open>json.loads\<close> makes of the object; \<open>quoted\<close> puts a string
  between double quotes (code 34).
\<close>

definition quoted :: "string \<Rightarrow> pystr" where
  "quoted cs = 34 # S cs @ [34]"

definition sample_text :: pystr where
  "sample_text = S ''I has a error here''"

definition sample_input :: json where
  "sample_input = JObj [(S ''prompt'', JStr sample_text)]"

definition sample_analysis :: json where
  "sample_analysis =
     JObj [(S ''has_errors'', JBool True),
           (S ''errors'', JArr [JObj [(S ''original'', JStr (S ''has'')),
                                      (S ''correction'', JStr (S ''have'')),
                                      (S ''category'', JStr (S ''grammar''))]]),
           (S ''better_expression'', JStr (S ''I have an error here'')),
           (S ''skipped'', JBool False)]"

definition sample_json_inner :: pystr where
  "sample_json_inner =
     quoted ''has_errors'' @ S '': true, '' @ quoted ''errors'' @ S '': [{'' @
     quoted ''original'' @ S '': '' @ quoted ''has'' @ S '', '' @
     quoted ''correction'' @ S '': '' @ quoted ''have'' @ S '', '' @
     quoted ''category'' @ S '': '' @ quoted ''grammar'' @ S ''}], '' @
     quoted ''better_expression'' @ S '': '' @ quoted ''I have an error here'' @ S '', '' @
     quoted ''skipped'' @ S '': false''"

definition sample_loads :: "pystr \<Rightarrow> json option" where
  "sample_loads t = (if t = 123 # sample_json_inner @ [125] then Some sample_analysis else None)"

definition sample_reply :: pystr where
  "sample_reply = S ''Here is the analysis: '' @ 123 # sample_json_inner @ 125 # S '' Done.''"

definition online_env :: env where
  "online_env =
     \<lparr>tables = sample_ucd, anthropic_installed = True, api_key = Some (S ''sk-test''),
      api_reply = (\<lambda>n msg. Inr sample_reply), json_loads = sample_loads,
      clock = (\<lambda>n. (739923, 43200000000 + n)),
      mkdir_ok = True, log_write_ok = True, queue_write_ok = True\<rparr>"

text \<open>
  The same environment without the \<open>anthropic\<close> package, and one whose service fails
  on the first three calls; a queue of four entries for it.
\<close>

definition offline_env :: env where
  "offline_env = online_env\<lparr>anthropic_installed := False\<rparr>"

definition flaky_env :: env where
  "flaky_env = online_env\<lparr>api_reply := (\<lambda>n msg. if n < 3 then Inl OSError else Inr sample_reply)\<rparr>"

definition sample_queue :: "json list" where
  "sample_queue =
     [JObj [(S ''prompt'', JStr (S ''She go to school yesterday''))],
      JObj [(S ''prompt'', JStr (S ''/commit''))],
      JObj [(S ''timestamp'', JStr (S ''2026-11-03''))],
      JObj [(S ''prompt'', JStr sample_text)]]"

definition queue_world :: world where
  "queue_world = empty_world\<lparr>retry_queue := sample_queue\<rparr>"

text \<open>
  An environment in which the log directory cannot be created, and a queue with the
  sample message as its only entry.
\<close>

definition readonly_env :: env where
  "readonly_env = online_env\<lparr>mkdir_ok := False\<rparr>"

definition single_queue_world :: world where
  "single_queue_world = empty_world\<lparr>retry_queue := [JObj [(S ''prompt'', JStr sample_text)]]\<rparr>"

section \<open>Properties of the admission filter\<close>

lemma strip_Nil_iff: "(strip u s = []) = list_all (isspace u) s"
proof -
  let ?d = "dropWhile (isspace u) s"
  have "(strip u s = []) = (\<forall>x \<in> set ?d. isspace u x)"
    by (simp add: strip_def)
  also have "\<dots> = (?d = [])"
  proof (cases ?d)
    case Nil
    show ?thesis unfolding Nil by simp
  next
    case (Cons a as)
    then have "\<not> isspace u a"
      using hd_dropWhile [of "isspace u" s] by auto
    then show ?thesis unfolding Cons by auto
  qed
  finally show ?thesis by (simp add: list_all_iff)
qed

lemma pure_chinese_loop_iff:
  "pure_chinese_loop u xs = (\<forall>c \<in> set xs. is_cjk c \<or> \<not> lower_in_az u c)"
  by (induction xs) auto

lemma count_letters_eq:
  "count_letters u s (a, b) =
     (a + length (filter is_cjk s), b + length (filter (latin_letter u) s))"
  by (induction s arbitrary: a b) (auto simp: latin_letter_def)

lemma contains_english_iff:
  "contains_english s = (\<exists>i. Suc i < length s \<and> ascii_letter (s ! i) \<and> ascii_letter (s ! Suc i))"
proof (induction s rule: contains_english.induct)
  case (1 a b cs)
  show ?case
  proof
    assume "contains_english (a # b # cs)"
    then consider "ascii_letter a \<and> ascii_letter b" | "contains_english (b # cs)" by auto
    then show "\<exists>i. Suc i < length (a # b # cs) \<and> ascii_letter ((a # b # cs) ! i) \<and> ascii_letter ((a # b # cs) ! Suc i)"
    proof cases
      case 1
      then show ?thesis by (intro exI [of _ 0]) simp
    next
      case 2
      with "1.IH" obtain i where "Suc i < length (b # cs)" "ascii_letter ((b # cs) ! i)" "ascii_letter ((b # cs) ! Suc i)"
        by blast
      then show ?thesis by (intro exI [of _ "Suc i"]) simp
    qed
  next
    assume "\<exists>i. Suc i < length (a # b # cs) \<and> ascii_letter ((a # b # cs) ! i) \<and> ascii_letter ((a # b # cs) ! Suc i)"
    then obtain i where i: "Suc i < length (a # b # cs)" "ascii_letter ((a # b # cs) ! i)" "ascii_letter ((a # b # cs) ! Suc i)"
      by blast
    show "contains_english (a # b # cs)"
    proof (cases i)
      case 0
      with i show ?thesis by simp
    next
      case (Suc j)
      with i have "Suc j < length (b # cs) \<and> ascii_letter ((b # cs) ! j) \<and> ascii_letter ((b # cs) ! Suc j)"
        by simp
      with "1.IH" show ?thesis by auto
    qed
  qed
qed simp_all

lemma spec_no_latin_run_iff: "spec_no_latin_run s = (\<not> contains_english s)"
  unfolding spec_no_latin_run_def contains_english_iff list_ex_iff
  by (cases s) auto

lemma contains_english_letter: "contains_english s \<Longrightarrow> \<exists>c \<in> set s. ascii_letter c"
  by (induction s rule: contains_english.induct) auto

lemma ascii_letter_cleaned: "ascii_letter c \<Longrightarrow> c \<in> set s \<Longrightarrow> c \<in> set (cleaned u s)"
  by (auto simp: cleaned_def ascii_letter_def isspace_def isdecimal_def isword_def ascii_digit_def)

lemma ascii_letter_lower_in_az: "ascii_letter c \<Longrightarrow> lower_in_az u c"
  by (auto simp: ascii_letter_def lower_in_az_def lower_def)

lemma ascii_letter_not_cjk: "ascii_letter c \<Longrightarrow> \<not> is_cjk c"
  by (auto simp: ascii_letter_def is_cjk_def)

lemma length_split_from:
  "length (split_from u cur s) = (if cur = [] then starts u True s else 1 + starts u False s)"
  by (induction s arbitrary: cur) auto

lemma length_starts_filter:
  "length (filter (\<lambda>i. \<not> isspace u (s ! i) \<and> (if i = 0 then p else isspace u (s ! (i - 1))))
     [0 ..< length s]) = starts u p s"
proof (induction s arbitrary: p)
  case Nil
  then show ?case by simp
next
  case (Cons c cs)
  have upt: "[0 ..< length (c # cs)] = 0 # map Suc [0 ..< length cs]"
    by (simp add: upt_conv_Cons map_Suc_upt del: upt_Suc)
  have "filter (\<lambda>i. \<not> isspace u ((c # cs) ! i) \<and> (if i = 0 then p else isspace u ((c # cs) ! (i - 1))))
          (map Suc [0 ..< length cs])
        = map Suc (filter (\<lambda>i. \<not> isspace u (cs ! i) \<and> (if i = 0 then isspace u c else isspace u (cs ! (i - 1))))
            [0 ..< length cs])"
    unfolding filter_map
    by (rule arg_cong [where f = "map Suc"], rule filter_cong) (auto simp: nth_Cons')
  then show ?case
    unfolding upt using Cons.IH [of "isspace u c"] by simp
qed

lemma length_token_starts: "length (token_starts u s) = length (split u s)"
proof -
  have "token_starts u s = filter (\<lambda>i. \<not> isspace u (s ! i) \<and> (if i = 0 then True else isspace u (s ! (i - 1)))) [0 ..< length s]"
    unfolding token_starts_def by (rule filter_cong) auto
  then show ?thesis
    by (simp add: length_starts_filter split_def length_split_from)
qed

lemma is_pure_chinese_iff:
  "is_pure_chinese u s = (\<forall>c \<in> set (cleaned u s). is_cjk c \<or> \<not> lower_in_az u c)"
  by (auto simp: is_pure_chinese_def pure_chinese_loop_iff)

lemma spec_pure_cjk_iff: "spec_pure_cjk u s = (\<forall>c \<in> set (cleaned u s). is_cjk c)"
  by (auto simp: spec_pure_cjk_def cleaned_def list_all_iff)

lemma bit_length_bounds: "0 < n \<Longrightarrow> 2 ^ (bit_length n - 1) \<le> n \<and> n < 2 ^ bit_length n"
proof (induction n rule: bit_length.induct)
  case (1 n)
  show ?case
  proof (cases "n div 2 = 0")
    case True
    with 1 have "n = 1" by auto
    then show ?thesis by (simp add: bit_length.simps)
  next
    case False
    then have pos: "0 < n div 2" by simp
    from 1 have n: "n \<noteq> 0" by simp
    from "1.IH" [OF n pos] have lo: "2 ^ (bit_length (n div 2) - 1) \<le> n div 2"
      and hi: "n div 2 < 2 ^ bit_length (n div 2)" by simp_all
    have bl: "bit_length n = Suc (bit_length (n div 2))"
      using n by (subst bit_length.simps) simp
    have bpos: "0 < bit_length (n div 2)"
      using pos by (subst bit_length.simps) simp
    then have "(2::nat) ^ bit_length (n div 2) = 2 * 2 ^ (bit_length (n div 2) - 1)"
      by (cases "bit_length (n div 2)") simp_all
    with lo have "2 ^ bit_length (n div 2) \<le> n" by linarith
    moreover from hi have "n < 2 * 2 ^ bit_length (n div 2)" by linarith
    ultimately show ?thesis by (simp add: bl)
  qed
qed

lemma round53_small: "p < 2 ^ 53 \<Longrightarrow> round53 p = p"
  by (simp add: round53_def)

lemma round53_near:
  assumes "2 ^ 53 \<le> p"
  defines "h \<equiv> 2 ^ (bit_length p - 54)"
  shows "round53 p \<le> p + h" and "p \<le> round53 p + h" and "h * 2 ^ 53 \<le> p"
    and "p < h * 2 ^ 54" and "2 * h dvd round53 p"
    and "\<And>m. 2 * h dvd m \<Longrightarrow> p < m \<Longrightarrow> m < p + h \<Longrightarrow> round53 p = m"
proof -
  let ?k = "bit_length p"
  from assms(1) have ppos: "0 < p"
    by (metis less_le_trans zero_less_numeral zero_less_power)
  from bit_length_bounds [OF ppos] have lo: "2 ^ (?k - 1) \<le> p" and hi: "p < 2 ^ ?k"
    by simp_all
  have k54: "54 \<le> ?k"
  proof (rule ccontr)
    assume "\<not> 54 \<le> ?k"
    then have "?k \<le> 53" by simp
    then have "(2::nat) ^ ?k \<le> 2 ^ 53" by (rule power_increasing) simp
    with hi assms(1) show False by linarith
  qed
  define sh where "sh = ?k - 53"
  have sh: "sh = Suc (?k - 54)" "?k - 1 = (?k - 54) + 53" "?k = (?k - 54) + 54"
    using k54 by (simp_all add: sh_def)
  have two_h: "2 ^ sh = 2 * h"
    by (simp add: sh(1) h_def)
  have h1: "2 ^ (sh - 1) = h"
    by (simp add: sh(1) h_def)
  show c: "h * 2 ^ 53 \<le> p"
    using lo by (subst (asm) sh(2)) (simp add: power_add h_def)
  show d: "p < h * 2 ^ 54"
    using hi by (subst (asm) sh(3)) (simp add: power_add h_def)
  define q where "q = p div (2 * h)"
  define r where "r = p mod (2 * h)"
  have hpos: "0 < h" by (simp add: h_def)
  have p: "p = q * (2 * h) + r"
    unfolding q_def r_def by (metis div_mult_mod_eq)
  have r: "r < 2 * h"
    using hpos by (simp add: r_def)
  have R: "round53 p = (if h < r \<or> (r = h \<and> odd q) then q + 1 else q) * (2 * h)"
    using assms(1) unfolding round53_def Let_def sh_def [symmetric] two_h h1 q_def r_def
    by simp
  show "round53 p \<le> p + h"
    unfolding R using p r by (auto simp: algebra_simps)
  show "p \<le> round53 p + h"
    unfolding R using p r by (auto simp: algebra_simps)
  show "2 * h dvd round53 p"
    unfolding R by simp
  show "round53 p = m" if m: "2 * h dvd m" "p < m" "m < p + h" for m
  proof -
    from m(1) obtain j where j: "m = (2 * h) * j" by (auto simp: dvd_def)
    from m(2) p j have "q * (2 * h) + r < j * (2 * h)"
      by (metis mult.commute)
    then have "q * (2 * h) < j * (2 * h)" by linarith
    then have qj: "q < j"
      using mult_less_cancel2 [of q "2 * h" j] by blast
    from m(3) p j r have "j * (2 * h) < (q + 2) * (2 * h)"
      by (simp add: algebra_simps)
    then have "j < q + 2"
      using mult_less_cancel2 [of j "2 * h" "q + 2"] by blast
    with qj have jq: "j = q + 1" by simp
    from m(3) p j jq have "h < r" by (simp add: algebra_simps)
    then show ?thesis
      unfolding R using j jq by (simp add: mult.commute)
  qed
qed

lemma double_03_tenths: "10 * double_03 + 2 = 3 * 2 ^ 54"
  by (simp add: double_03_def)

lemma exceeds_times_03_iff:
  assumes n: "n < 2 ^ 51"
  shows "exceeds_times_03 c n = (3 * n < 10 * c)"
proof (cases "n = 0")
  case True
  then show ?thesis
    by (simp add: exceeds_times_03_def times_03_def round53_small)
next
  case False
  then have npos: "0 < n" by simp
  define P where "P = n * double_03"
  define N where "N = n * 2 ^ 54"
  define M where "M = c * 2 ^ 54"
  define R where "R = round53 P"
  have "n < 2 ^ 53"
    using n by simp
  then have t: "times_03 n = R"
    by (simp add: times_03_def round53_small R_def P_def)
  have ex: "exceeds_times_03 c n = (R < M)"
    by (simp add: exceeds_times_03_def t M_def)
  have f1: "10 * P + 2 * n = 3 * N"
  proof -
    have "n * (10 * double_03 + 2) = n * (3 * 2 ^ 54)"
      by (simp only: double_03_tenths)
    then show ?thesis
      by (simp add: P_def N_def algebra_simps)
  qed
  have f4: "8 * n \<le> 2 ^ 54"
    using n by simp
  have up: "3 * N + 2 ^ 54 \<le> 10 * M" if "3 * n < 10 * c"
  proof -
    from that have "3 * n + 1 \<le> 10 * c" by simp
    then have "(3 * n + 1) * 2 ^ 54 \<le> (10 * c) * 2 ^ 54"
      by (rule mult_le_mono1)
    then show ?thesis
      by (simp add: N_def M_def algebra_simps)
  qed
  have down: "10 * M + 2 ^ 54 \<le> 3 * N" if "10 * c < 3 * n"
  proof -
    from that have "10 * c + 1 \<le> 3 * n" by simp
    then have "(10 * c + 1) * 2 ^ 54 \<le> (3 * n) * 2 ^ 54"
      by (rule mult_le_mono1)
    then show ?thesis
      by (simp add: N_def M_def algebra_simps)
  qed
  have same: "10 * M = 3 * N" if "10 * c = 3 * n"
    using that by (simp add: N_def M_def algebra_simps)
  show ?thesis
  proof (cases "P < 2 ^ 53")
    case True
    then have r: "R = P" by (simp add: R_def round53_small)
    have "n = 1"
    proof (rule ccontr)
      assume "n \<noteq> 1"
      with npos have "2 \<le> n" by simp
      then have "2 * double_03 \<le> n * double_03" by (rule mult_le_mono1)
      with True show False by (simp add: P_def double_03_def)
    qed
    show ?thesis
    proof (cases "c = 0")
      case True
      then have "M = 0" by (simp add: M_def)
      with True show ?thesis unfolding ex by simp
    next
      case False
      then have "1 * 2 ^ 54 \<le> c * (2::nat) ^ 54"
        by (intro mult_le_mono1) simp
      then have "R < M"
        using \<open>n = 1\<close> by (simp add: r P_def M_def double_03_def)
      with \<open>n = 1\<close> False show ?thesis unfolding ex by simp
    qed
  next
    case False
    then have big: "2 ^ 53 \<le> P" by simp
    define h :: nat where "h = 2 ^ (bit_length P - 54)"
    note near = round53_near [OF big, folded h_def R_def]
    have hpos: "0 < h" by (simp add: h_def)
    have f2: "5 * h < 3 * n"
    proof -
      define K :: nat where "K = 2 ^ 53"
      have k1: "h * K \<le> n * double_03"
        using near(3) by (simp add: K_def P_def)
      have k2: "5 * double_03 < 3 * K"
        by (simp add: K_def double_03_def)
      have "(5 * h) * K = 5 * (h * K)"
        by simp
      also have "\<dots> \<le> 5 * (n * double_03)"
        using k1 by (rule mult_le_mono2)
      also have "\<dots> = n * (5 * double_03)"
        by simp
      also have "\<dots> < n * (3 * K)"
        using k2 npos by (rule mult_less_mono2)
      also have "\<dots> = (3 * n) * K"
        by simp
      finally show ?thesis
        using mult_less_cancel2 [of "5 * h" K "3 * n"] by blast
    qed
    consider (gt) "3 * n < 10 * c" | (lt) "10 * c < 3 * n" | (eq) "10 * c = 3 * n"
      by linarith
    then show ?thesis
    proof cases
      case gt
      from up [OF gt] near(1) f1 f2 f4 have "R < M" by linarith
      with gt show ?thesis by (simp add: ex)
    next
      case lt
      from down [OF lt] near(2) f1 f2 f4 have "M < R" by linarith
      with lt show ?thesis by (simp add: ex)
    next
      case eq
      have "3 * n \<le> 10 * h"
      proof (rule ccontr)
        assume "\<not> 3 * n \<le> 10 * h"
        then have "10 * h + 1 \<le> 3 * n" by simp
        then have "(10 * h + 1) * 2 ^ 54 \<le> (3 * n) * 2 ^ 54"
          by (rule mult_le_mono1)
        then have "10 * (h * 2 ^ 54) + 2 ^ 54 \<le> 3 * N"
          by (simp add: N_def algebra_simps)
        with near(4) f1 f4 show False by linarith
      qed
      with npos have n5: "n < 5 * h" by linarith
      have pm: "P < M" "M < P + h"
        using same [OF eq] f1 npos n5 by linarith+
      have "bit_length P - 53 \<le> 54"
      proof -
        have "P < 2 ^ 51 * 2 ^ 53"
          unfolding P_def using n npos
          by (intro mult_strict_mono) (simp_all add: double_03_def)
        then have "P < 2 ^ 104" by simp
        moreover have "2 ^ (bit_length P - 1) \<le> P"
          using bit_length_bounds [of P] big by (cases "P = 0") simp_all
        ultimately have "(2::nat) ^ (bit_length P - 1) < 2 ^ 104" by linarith
        then have "bit_length P - 1 < 104" by (simp only: power_strict_increasing_iff) 
        then show ?thesis by simp
      qed
      then have "(2::nat) ^ (bit_length P - 53) dvd 2 ^ 54"
        by (rule le_imp_power_dvd)
      moreover have "2 * h = 2 ^ (bit_length P - 53)"
      proof -
        have "54 \<le> bit_length P"
        proof (rule ccontr)
          assume "\<not> 54 \<le> bit_length P"
          then have "bit_length P \<le> 53" by simp
          then have "(2::nat) ^ bit_length P \<le> 2 ^ 53" by (rule power_increasing) simp
          moreover have "P < 2 ^ bit_length P"
            using bit_length_bounds [of P] big by (cases "P = 0") simp_all
          ultimately show False using big by linarith
        qed
        then have "bit_length P - 53 = Suc (bit_length P - 54)" by simp
        then show ?thesis by (simp add: h_def)
      qed
      ultimately have "2 * h dvd M"
        by (simp add: M_def)
      from near(6) [OF this pm] have "R = M" .
      with eq show ?thesis by (simp add: ex)
    qed
  qed
qed

lemma count_letters_le_length:
  "length (filter is_cjk s) + length (filter (latin_letter u) s) \<le> length s"
  by (induction s) (auto simp: latin_letter_def)

lemma is_primarily_chinese_iff:
  assumes "length s < 2 ^ 51"
  shows "is_primarily_chinese u s = spec_mostly_cjk u s"
proof -
  have "length (filter is_cjk s) + length (filter (latin_letter u) s) < 2 ^ 51"
    using count_letters_le_length [of s u] assms by linarith
  then show ?thesis
    by (auto simp: is_primarily_chinese_def spec_mostly_cjk_def count_letters_eq Let_def
        exceeds_times_03_iff)
qed

lemma spec_slash_iff: "spec_slash u s = (take 1 (strip u s) = [47])"
  by (auto simp: spec_slash_def split: list.splits)

lemma pure_with_english:
  assumes "contains_english s"
  shows "is_pure_chinese u s = spec_pure_cjk u s"
proof -
  from assms obtain a where a: "a \<in> set s" "ascii_letter a"
    using contains_english_letter by blast
  then have "a \<in> set (cleaned u s)" "\<not> is_cjk a" "lower_in_az u a"
    by (simp_all add: ascii_letter_cleaned ascii_letter_lower_in_az ascii_letter_not_cjk)
  then have "\<not> is_pure_chinese u s" "\<not> spec_pure_cjk u s"
    unfolding is_pure_chinese_iff spec_pure_cjk_iff by blast+
  then show ?thesis by simp
qed

lemma should_check_grammar_spec:
  assumes "length s < 2 ^ 51"
  shows "should_check_grammar u s = spec_admit u s"
proof (cases "contains_english s")
  case True
  have "s = [] \<Longrightarrow> strip u s = []" by (simp add: strip_def)
  then show ?thesis
    using pure_with_english [OF True, of u] is_primarily_chinese_iff [OF assms, of u]
    by (auto simp: should_check_grammar_def spec_admit_def spec_blank_def strip_Nil_iff
        spec_slash_iff spec_no_latin_run_iff spec_few_tokens_def length_token_starts)
next
  case False
  then show ?thesis
    by (auto simp: should_check_grammar_def spec_admit_def spec_no_latin_run_iff)
qed

lemmas filter_eval = should_check_grammar_def S_def strip_def split_def is_pure_chinese_def
  cleaned_def is_primarily_chinese_def isspace_def isdecimal_def isword_def ascii_letter_def
  ascii_digit_def is_cjk_def lower_in_az_def lower_def exceeds_times_03_iff

lemma reject_ni_hao: "\<not> should_check_grammar u [20320, 22909, 19990, 30028]"
  by (simp add: should_check_grammar_def is_pure_chinese_def cleaned_def is_cjk_def)

lemma reject_commit: "\<not> should_check_grammar u (S ''/commit'')"
  by (simp add: filter_eval)

lemma reject_hi: "\<not> should_check_grammar u (S ''Hi'')"
  by (simp add: filter_eval)

lemma admit_improve: "should_check_grammar u (S ''I want to improve my English'')"
  by (simp add: filter_eval)

lemma admit_npm: "should_check_grammar u (S ''npm install package'')"
  by (simp add: filter_eval)

text \<open>
  C7. The admission filter admits a text exactly when none of the six rejection
  conditions of the specification holds: blank text, a leading slash after stripping,
  only CJK ideographs left after removing whitespace, digits and punctuation, more than
  30 percent CJK among the CJK and Latin letters (or no such letter at all), no run of
  two Latin letters, fewer than three tokens. This holds for every text of fewer than
  \<open>2 ^ 51\<close> characters, where the product with the double \<open>0.3\<close> decides as the exact
  30 percent do, and whatever the Unicode tables say beyond ASCII. The texts
  \<open>U+4F60 U+597D U+4E16 U+754C\<close> (the four ideographs of the example), \<open>/commit\<close> and
  \<open>Hi\<close> are rejected; \<open>I want to improve my English\<close> and \<open>npm install package\<close> are
  admitted.
\<close>

theorem admission_filter_spec:
  "(length s < 2 ^ 51 \<longrightarrow> should_check_grammar u s = spec_admit u s) \<and>
   \<not> should_check_grammar u [20320, 22909, 19990, 30028] \<and>
   \<not> should_check_grammar u (S ''/commit'') \<and>
   \<not> should_check_grammar u (S ''Hi'') \<and>
   should_check_grammar u (S ''I want to improve my English'') \<and>
   should_check_grammar u (S ''npm install package'')"
  using should_check_grammar_spec reject_ni_hao reject_commit reject_hi admit_improve admit_npm
  by blast

theorem admission_filter_spec_witness:
  "length (S ''Hello world today'') < 2 ^ 51 \<and>
   should_check_grammar sample_ucd (S ''Hello world today'') \<and>
   spec_admit sample_ucd (S ''Hello world today'') \<and>
   \<not> spec_admit sample_ucd [25105, 24819, 23398, 20064, 32, 80, 121, 116, 104, 111, 110]"
proof -
  have a: "should_check_grammar sample_ucd (S ''Hello world today'')"
    by (simp add: filter_eval)
  have b: "\<not> should_check_grammar sample_ucd
             [25105, 24819, 23398, 20064, 32, 80, 121, 116, 104, 111, 110]"
    by (simp add: filter_eval sample_ucd_def)
  have c: "length (S ''Hello world today'') < 2 ^ 51"
    "length [25105, 24819, 23398, 20064, 32, 80, 121, 116, 104, 111, 110 :: nat] < 2 ^ 51"
    by (simp_all add: S_def)
  show ?thesis
    using a b c admission_filter_spec [of "S ''Hello world today''" sample_ucd]
      admission_filter_spec
        [of "[25105, 24819, 23398, 20064, 32, 80, 121, 116, 104, 111, 110]" sample_ucd]
    by simp
qed

section \<open>Properties of the structured store\<close>

lemma insert_correction_Inr:
  assumes "insert_correction now ot ut be su tx = Inr tx'"
  shows "\<exists>row. t_corrections tx' = t_corrections tx @ [row] \<and> c_id row = seq_corrections tx' \<and>
           c_timestamp row = now \<and> c_original_text row = ot \<and>
           sql_bind ut = Inr (c_user_text row) \<and>
           sql_bind be = Inr (c_better_expression row) \<and> sql_bind su = Inr (c_summary row)"
    and "t_errors tx' = t_errors tx" and "t_daily_stats tx' = t_daily_stats tx"
    and "seq_corrections tx' = seq_corrections tx + 1" and "seq_errors tx' = seq_errors tx"
  using assms by (auto simp: insert_correction_def split: sum.splits)

lemma insert_error_Inr:
  assumes "insert_error cid error category tx = Inr tx'"
  shows "\<exists>row. t_errors tx' = t_errors tx @ [row] \<and> e_correction_id row = cid \<and>
           e_category row = category"
    and "t_corrections tx' = t_corrections tx" and "t_daily_stats tx' = t_daily_stats tx"
    and "seq_corrections tx' = seq_corrections tx"
  using assms by (auto simp: insert_error_def split: sum.splits)

lemma insert_errors_Inr:
  assumes "insert_errors u cid es cc tx = Inr (cc', tx')"
  shows "\<exists>rows. t_errors tx' = t_errors tx @ rows \<and> length rows = length es \<and>
           (\<forall>r \<in> set rows. e_correction_id r = cid) \<and>
           map (\<lambda>r. Inr (e_category r)) rows = map (normalized_category u) es"
    and "t_corrections tx' = t_corrections tx" and "t_daily_stats tx' = t_daily_stats tx"
    and "seq_corrections tx' = seq_corrections tx"
    and "\<And>c. cc' c = cc c + count_category u es c"
  using assms
proof (induction es arbitrary: cc tx)
  case Nil
  {
    case 1 then show ?case by simp
  next
    case 2 then show ?case by simp
  next
    case 3 then show ?case by simp
  next
    case 4 then show ?case by simp
  next
    case 5 then show ?case by (simp add: count_category_def)
  }
next
  case (Cons e es)
  {
    case 1
    from 1 obtain cat tx1 where cat: "normalized_category u e = Inr cat"
      and tx1: "insert_error cid e cat tx = Inr tx1"
      and rest: "insert_errors u cid es (cc(cat := cc cat + 1)) tx1 = Inr (cc', tx')"
      by (auto split: sum.splits)
    from insert_error_Inr(1) [OF tx1] obtain row where row:
      "t_errors tx1 = t_errors tx @ [row]" "e_correction_id row = cid" "e_category row = cat"
      by blast
    from Cons.IH(1) [OF rest] obtain rows where rows:
      "t_errors tx' = t_errors tx1 @ rows" "length rows = length es"
      "\<forall>r \<in> set rows. e_correction_id r = cid"
      "map (\<lambda>r. Inr (e_category r)) rows = map (normalized_category u) es"
      by blast
    show ?case
      by (rule exI [of _ "row # rows"]) (use row rows cat in auto)
  next
    case 2
    then obtain cat tx1 where tx1: "insert_error cid e cat tx = Inr tx1"
      and rest: "insert_errors u cid es (cc(cat := cc cat + 1)) tx1 = Inr (cc', tx')"
      by (auto split: sum.splits)
    show ?case using Cons.IH(2) [OF rest] insert_error_Inr(2) [OF tx1] by simp
  next
    case 3
    then obtain cat tx1 where tx1: "insert_error cid e cat tx = Inr tx1"
      and rest: "insert_errors u cid es (cc(cat := cc cat + 1)) tx1 = Inr (cc', tx')"
      by (auto split: sum.splits)
    show ?case using Cons.IH(3) [OF rest] insert_error_Inr(3) [OF tx1] by simp
  next
    case 4
    then obtain cat tx1 where tx1: "insert_error cid e cat tx = Inr tx1"
      and rest: "insert_errors u cid es (cc(cat := cc cat + 1)) tx1 = Inr (cc', tx')"
      by (auto split: sum.splits)
    show ?case using Cons.IH(4) [OF rest] insert_error_Inr(4) [OF tx1] by simp
  next
    case (5 c)
    then obtain cat tx1 where cat: "normalized_category u e = Inr cat"
      and rest: "insert_errors u cid es (cc(cat := cc cat + 1)) tx1 = Inr (cc', tx')"
      by (auto split: sum.splits)
    show ?case using Cons.IH(5) [OF rest, of c] cat by (auto simp: count_category_def)
  }
qed

lemma get_daily_stats_upsert:
  "get_daily_stats day (upsert_daily_stats today cc tx) =
     (if day = today
      then \<lparr>total_corrections = total_corrections (get_daily_stats today tx) + 1,
            spelling_count = spelling_count (get_daily_stats today tx) + cc (S ''spelling''),
            grammar_count = grammar_count (get_daily_stats today tx) + cc (S ''grammar''),
            style_count = style_count (get_daily_stats today tx) + cc (S ''style''),
            vocabulary_count = vocabulary_count (get_daily_stats today tx) + cc (S ''vocabulary'')\<rparr>
      else get_daily_stats day tx)"
  by (simp add: get_daily_stats_def upsert_daily_stats_def split: option.splits)

lemma upsert_daily_stats_tables:
  "t_corrections (upsert_daily_stats today cc tx) = t_corrections tx"
  "t_errors (upsert_daily_stats today cc tx) = t_errors tx"
  "day \<noteq> today \<Longrightarrow> t_daily_stats (upsert_daily_stats today cc tx) day = t_daily_stats tx day"
  by (simp_all add: upsert_daily_stats_def)

lemma get_daily_stats_cong:
  "t_daily_stats a = t_daily_stats b \<Longrightarrow> get_daily_stats day a = get_daily_stats day b"
  by (simp add: get_daily_stats_def)

lemma save_correction_Inl: "save_correction u now today ot ut errs be su d = (Inl e, d') \<Longrightarrow> d' = d"
  by (auto simp: save_correction_def split: sum.splits prod.splits)

lemma save_correction_Inr:
  "save_correction u now today ot ut errs be su d = (Inr cid, d') \<Longrightarrow>
     save_correction_tx u now today ot ut errs be su d = Inr (cid, d')"
  by (auto simp: save_correction_def split: sum.splits prod.splits)

lemma save_correction_tx_effects:
  assumes "save_correction_tx u now today ot ut errs be su d = Inr (cid, d')"
  shows "\<exists>row es rows.
           iterate errs = Inr es \<and>
           t_corrections d' = t_corrections d @ [row] \<and> c_id row = cid \<and>
           c_timestamp row = now \<and> c_original_text row = ot \<and>
           t_errors d' = t_errors d @ rows \<and> length rows = length es \<and>
           (\<forall>r \<in> set rows. e_correction_id r = cid) \<and>
           map (\<lambda>r. Inr (e_category r)) rows = map (normalized_category u) es \<and>
           get_daily_stats today d' =
             \<lparr>total_corrections = total_corrections (get_daily_stats today d) + 1,
              spelling_count = spelling_count (get_daily_stats today d) +
                 count_category u es (S ''spelling''),
              grammar_count = grammar_count (get_daily_stats today d) +
                 count_category u es (S ''grammar''),
              style_count = style_count (get_daily_stats today d) +
                 count_category u es (S ''style''),
              vocabulary_count = vocabulary_count (get_daily_stats today d) +
                 count_category u es (S ''vocabulary'')\<rparr> \<and>
           (\<forall>day. day \<noteq> today \<longrightarrow> t_daily_stats d' day = t_daily_stats d day)"
proof -
  from assms obtain tx1 es cc tx2 where
    tx1: "insert_correction now ot ut be su d = Inr tx1"
    and es: "iterate errs = Inr es"
    and tx2: "insert_errors u (seq_corrections tx1) es (\<lambda>c. 0) tx1 = Inr (cc, tx2)"
    and cid: "cid = seq_corrections tx1"
    and d': "d' = upsert_daily_stats today cc tx2"
    by (auto simp: save_correction_tx_def split: sum.splits prod.splits)
  from insert_correction_Inr(1) [OF tx1] obtain row where row:
    "t_corrections tx1 = t_corrections d @ [row]" "c_id row = seq_corrections tx1"
    "c_timestamp row = now" "c_original_text row = ot"
    by blast
  from insert_errors_Inr(1) [OF tx2] obtain rows where rows:
    "t_errors tx2 = t_errors tx1 @ rows" "length rows = length es"
    "\<forall>r \<in> set rows. e_correction_id r = seq_corrections tx1"
    "map (\<lambda>r. Inr (e_category r)) rows = map (normalized_category u) es"
    by blast
  have stats: "t_daily_stats tx2 = t_daily_stats d"
    using insert_errors_Inr(3) [OF tx2] insert_correction_Inr(3) [OF tx1] by simp
  have cc: "cc c = count_category u es c" for c
    using insert_errors_Inr(5) [OF tx2, of c] by simp
  have a: "t_corrections d' = t_corrections d @ [row]"
    using d' row insert_errors_Inr(2) [OF tx2] by (simp add: upsert_daily_stats_tables)
  have b: "t_errors d' = t_errors d @ rows"
    using d' rows insert_correction_Inr(2) [OF tx1] by (simp add: upsert_daily_stats_tables)
  have c: "get_daily_stats today d' =
             \<lparr>total_corrections = total_corrections (get_daily_stats today d) + 1,
              spelling_count = spelling_count (get_daily_stats today d) +
                 count_category u es (S ''spelling''),
              grammar_count = grammar_count (get_daily_stats today d) +
                 count_category u es (S ''grammar''),
              style_count = style_count (get_daily_stats today d) +
                 count_category u es (S ''style''),
              vocabulary_count = vocabulary_count (get_daily_stats today d) +
                 count_category u es (S ''vocabulary'')\<rparr>"
    unfolding d' get_daily_stats_upsert using get_daily_stats_cong [OF stats] by (simp add: cc)
  have e: "\<forall>day. day \<noteq> today \<longrightarrow> t_daily_stats d' day = t_daily_stats d day"
    using d' stats by (simp add: upsert_daily_stats_tables)
  show ?thesis
    using es a b c e row rows cid by blast
qed

lemma counter_consistent_step:
  assumes "counter_consistent d"
    and "t_corrections d' = t_corrections d @ [row]"
    and "date_of (c_timestamp row) = today"
    and "total_corrections (get_daily_stats today d') =
           total_corrections (get_daily_stats today d) + 1"
    and "\<forall>day. day \<noteq> today \<longrightarrow> t_daily_stats d' day = t_daily_stats d day"
  shows "counter_consistent d'"
  unfolding counter_consistent_def
proof
  fix day
  show "total_corrections (get_daily_stats day d') =
          length (filter (\<lambda>c. date_of (c_timestamp c) = day) (t_corrections d'))"
  proof (cases "day = today")
    case True
    then show ?thesis
      using assms by (simp add: counter_consistent_def)
  next
    case False
    then have "get_daily_stats day d' = get_daily_stats day d"
      using assms(5) by (simp add: get_daily_stats_def)
    then show ?thesis
      using assms(1,2,3) False by (simp add: counter_consistent_def)
  qed
qed

lemmas db_eval = save_correction_def save_correction_tx_def insert_correction_def
  insert_error_def normalized_category_def get_method_def dget_def lower_method_def lower_def
  upsert_daily_stats_def category_names_def S_def empty_db_def get_daily_stats_def finding_def

lemma counter_consistent_empty: "counter_consistent empty_db"
  by (simp add: counter_consistent_def get_daily_stats_def empty_db_def)

text \<open>
  The failure of a later statement undoes the earlier ones: the second finding has a
  \<open>null\<close> category, \<open>.lower()\<close> raises after the correction and the first finding
  were inserted, and the store is as before.
\<close>

lemma save_correction_rolls_back_example:
  "save_correction u (739923, 0) 739923 (S ''I has a error'') (JStr (S ''I has a error''))
     (JArr [finding ''teh'' ''the'' (JStr (S ''spelling'')), finding ''has'' ''have'' JNull])
     JNull JNull empty_db = (Inl AttributeError, empty_db)"
  by (simp add: db_eval)

text \<open>
  C5 (as amended). \<open>save_correction\<close> is atomic: either it raises and the store is
  unchanged, or the correction, one error row per finding (all pointing to the new
  correction) and the increment by one of the counter of the date read as today, and of
  no other, have all taken effect. When the call's two clock readings fall on the same
  calendar day, the counter invariant is kept: the total of every date stays the number
  of corrections of that date, so each correction counts exactly once.
\<close>

theorem save_correction_atomic:
  "(\<exists>e. save_correction u now today ot ut errs be su d = (Inl e, d)) \<or>
   (\<exists>cid d' row es rows.
      save_correction u now today ot ut errs be su d = (Inr cid, d') \<and>
      iterate errs = Inr es \<and>
      t_corrections d' = t_corrections d @ [row] \<and> c_id row = cid \<and>
      c_timestamp row = now \<and> c_original_text row = ot \<and>
      t_errors d' = t_errors d @ rows \<and> length rows = length es \<and>
      (\<forall>r \<in> set rows. e_correction_id r = cid) \<and>
      total_corrections (get_daily_stats today d') =
        total_corrections (get_daily_stats today d) + 1 \<and>
      (\<forall>day. day \<noteq> today \<longrightarrow> t_daily_stats d' day = t_daily_stats d day) \<and>
      (counter_consistent d \<and> date_of now = today \<longrightarrow> counter_consistent d'))"
proof (cases "save_correction u now today ot ut errs be su d")
  case (Pair r d')
  show ?thesis
  proof (cases r)
    case (Inl e)
    with Pair save_correction_Inl show ?thesis by blast
  next
    case (Inr cid)
    with Pair have run: "save_correction u now today ot ut errs be su d = (Inr cid, d')"
      by simp
    from save_correction_tx_effects [OF save_correction_Inr [OF run]]
    obtain row es rows where eff:
      "iterate errs = Inr es" "t_corrections d' = t_corrections d @ [row]" "c_id row = cid"
      "c_timestamp row = now" "c_original_text row = ot"
      "t_errors d' = t_errors d @ rows" "length rows = length es"
      "\<forall>r \<in> set rows. e_correction_id r = cid"
      "get_daily_stats today d' =
             \<lparr>total_corrections = total_corrections (get_daily_stats today d) + 1,
              spelling_count = spelling_count (get_daily_stats today d) +
                 count_category u es (S ''spelling''),
              grammar_count = grammar_count (get_daily_stats today d) +
                 count_category u es (S ''grammar''),
              style_count = style_count (get_daily_stats today d) +
                 count_category u es (S ''style''),
              vocabulary_count = vocabulary_count (get_daily_stats today d) +
                 count_category u es (S ''vocabulary'')\<rparr>"
      "\<forall>day. day \<noteq> today \<longrightarrow> t_daily_stats d' day = t_daily_stats d day"
      by blast
    have tot: "total_corrections (get_daily_stats today d') =
                 total_corrections (get_daily_stats today d) + 1"
      using eff(9) by simp
    have "counter_consistent d'" if "counter_consistent d" "date_of now = today"
      using counter_consistent_step [OF that(1) eff(2) _ tot eff(10)] eff(4) that(2) by simp
    with run eff tot show ?thesis by blast
  qed
qed

theorem save_correction_atomic_witness:
  "counter_consistent empty_db \<and> date_of (739923, 0) = 739923 \<and>
   fst (save_correction sample_ucd (739923, 0) 739923 (S ''I has a error'')
          (JStr (S ''I has a error''))
          (JArr [finding ''has'' ''have'' (JStr (S ''grammar''))]) JNull JNull empty_db) = Inr 1 \<and>
   counter_consistent
     (snd (save_correction sample_ucd (739923, 0) 739923 (S ''I has a error'')
          (JStr (S ''I has a error''))
          (JArr [finding ''has'' ''have'' (JStr (S ''grammar''))]) JNull JNull empty_db))"
proof -
  have h1: "counter_consistent empty_db" by (rule counter_consistent_empty)
  have h2: "date_of (739923, 0) = 739923" by (simp add: date_of_def)
  have r: "fst (save_correction sample_ucd (739923, 0) 739923 (S ''I has a error'')
          (JStr (S ''I has a error''))
          (JArr [finding ''has'' ''have'' (JStr (S ''grammar''))]) JNull JNull empty_db) = Inr 1"
    by (simp add: db_eval)
  show ?thesis
    using h1 h2 r
      save_correction_atomic [of sample_ucd "(739923, 0)" 739923 "S ''I has a error''"
        "JStr (S ''I has a error'')" "JArr [finding ''has'' ''have'' (JStr (S ''grammar''))]"
        JNull JNull empty_db]
    by auto
qed

text \<open>
  The claim as worded fails for a call that straddles midnight: the timestamp is read on
  one day and \<open>date.today()\<close> on the next, the correction is dated the first day, whose
  total stays 0, and the second day's total is incremented.
\<close>

theorem midnight_record_counterexample:
  "counter_consistent empty_db \<and>
   fst (save_correction sample_ucd (739923, 86399999999) 739924 (S ''I has a error'')
          (JStr (S ''I has a error''))
          (JArr [finding ''has'' ''have'' (JStr (S ''grammar''))]) JNull JNull empty_db) = Inr 1 \<and>
   map c_timestamp (t_corrections
     (snd (save_correction sample_ucd (739923, 86399999999) 739924 (S ''I has a error'')
          (JStr (S ''I has a error''))
          (JArr [finding ''has'' ''have'' (JStr (S ''grammar''))]) JNull JNull empty_db)))
     = [(739923, 86399999999)] \<and>
   total_corrections (get_daily_stats 739923
     (snd (save_correction sample_ucd (739923, 86399999999) 739924 (S ''I has a error'')
          (JStr (S ''I has a error''))
          (JArr [finding ''has'' ''have'' (JStr (S ''grammar''))]) JNull JNull empty_db))) = 0 \<and>
   total_corrections (get_daily_stats 739924
     (snd (save_correction sample_ucd (739923, 86399999999) 739924 (S ''I has a error'')
          (JStr (S ''I has a error''))
          (JArr [finding ''has'' ''have'' (JStr (S ''grammar''))]) JNull JNull empty_db))) = 1 \<and>
   \<not> counter_consistent
     (snd (save_correction sample_ucd (739923, 86399999999) 739924 (S ''I has a error'')
          (JStr (S ''I has a error''))
          (JArr [finding ''has'' ''have'' (JStr (S ''grammar''))]) JNull JNull empty_db))"
proof -
  let ?d = "snd (save_correction sample_ucd (739923, 86399999999) 739924 (S ''I has a error'')
          (JStr (S ''I has a error''))
          (JArr [finding ''has'' ''have'' (JStr (S ''grammar''))]) JNull JNull empty_db)"
  have ev: "fst (save_correction sample_ucd (739923, 86399999999) 739924 (S ''I has a error'')
          (JStr (S ''I has a error''))
          (JArr [finding ''has'' ''have'' (JStr (S ''grammar''))]) JNull JNull empty_db) = Inr 1"
    "map c_timestamp (t_corrections ?d) = [(739923, 86399999999)]"
    "total_corrections (get_daily_stats 739923 ?d) = 0"
    "total_corrections (get_daily_stats 739924 ?d) = 1"
    by (simp_all add: db_eval)
  have "length (filter (\<lambda>c. date_of (c_timestamp c) = 739923) (t_corrections ?d)) = 1"
    by (simp add: db_eval date_of_def)
  with ev(3) have "\<not> counter_consistent ?d"
    unfolding counter_consistent_def by (metis zero_neq_one)
  with ev counter_consistent_empty show ?thesis by simp
qed

text \<open>
  C8 (as amended). A successful \<open>save_correction\<close> changes only today's row of
  \<open>daily_stats\<close>: the total grows by one and each category count by the number of
  findings filed under that category; the error rows stored carry the normalized
  categories. Normalization lower-cases the category string and then replaces it by
  \<open>grammar\<close> when the lower-cased string is none of the four names; a missing category
  is \<open>grammar\<close>.
\<close>

theorem record_increments_today:
  assumes "save_correction u now today ot ut errs be su d = (Inr cid, d')"
  shows "\<exists>es rows.
           iterate errs = Inr es \<and> t_errors d' = t_errors d @ rows \<and>
           map (\<lambda>r. Inr (e_category r)) rows = map (normalized_category u) es \<and>
           (\<forall>e \<in> set es. \<exists>kvs c. e = JObj kvs \<and>
              dget kvs (S ''category'') (JStr (S ''grammar'')) = JStr c \<and>
              normalized_category u e =
                Inr (if lower u c \<in> set category_names then lower u c else S ''grammar'')) \<and>
           total_corrections (get_daily_stats today d') =
             total_corrections (get_daily_stats today d) + 1 \<and>
           spelling_count (get_daily_stats today d') =
             spelling_count (get_daily_stats today d) + count_category u es (S ''spelling'') \<and>
           grammar_count (get_daily_stats today d') =
             grammar_count (get_daily_stats today d) + count_category u es (S ''grammar'') \<and>
           style_count (get_daily_stats today d') =
             style_count (get_daily_stats today d) + count_category u es (S ''style'') \<and>
           vocabulary_count (get_daily_stats today d') =
             vocabulary_count (get_daily_stats today d) + count_category u es (S ''vocabulary'') \<and>
           (\<forall>day. day \<noteq> today \<longrightarrow> t_daily_stats d' day = t_daily_stats d day)"
proof -
  from save_correction_tx_effects [OF save_correction_Inr [OF assms]]
  obtain row es rows where eff:
    "iterate errs = Inr es" "t_errors d' = t_errors d @ rows" "length rows = length es"
    "map (\<lambda>r. Inr (e_category r)) rows = map (normalized_category u) es"
    "get_daily_stats today d' =
           \<lparr>total_corrections = total_corrections (get_daily_stats today d) + 1,
            spelling_count = spelling_count (get_daily_stats today d) +
               count_category u es (S ''spelling''),
            grammar_count = grammar_count (get_daily_stats today d) +
               count_category u es (S ''grammar''),
            style_count = style_count (get_daily_stats today d) +
               count_category u es (S ''style''),
            vocabulary_count = vocabulary_count (get_daily_stats today d) +
               count_category u es (S ''vocabulary'')\<rparr>"
    "\<forall>day. day \<noteq> today \<longrightarrow> t_daily_stats d' day = t_daily_stats d day"
    by blast
  have norm: "\<exists>kvs c. e = JObj kvs \<and>
              dget kvs (S ''category'') (JStr (S ''grammar'')) = JStr c \<and>
              normalized_category u e =
                Inr (if lower u c \<in> set category_names then lower u c else S ''grammar'')"
    if e: "e \<in> set es" for e
  proof -
    from e obtain i where i: "i < length es" "es ! i = e"
      by (auto simp: in_set_conv_nth)
    have "map (\<lambda>r. Inr (e_category r)) rows ! i = map (normalized_category u) es ! i"
      using eff(4) by simp
    with i eff(3) have ok: "normalized_category u e = Inr (e_category (rows ! i))"
      by simp
    then show ?thesis
      by (auto simp: normalized_category_def get_method_def lower_method_def
          split: json.splits sum.splits)
  qed
  have "total_corrections (get_daily_stats today d') =
          total_corrections (get_daily_stats today d) + 1"
       "spelling_count (get_daily_stats today d') =
          spelling_count (get_daily_stats today d) + count_category u es (S ''spelling'')"
       "grammar_count (get_daily_stats today d') =
          grammar_count (get_daily_stats today d) + count_category u es (S ''grammar'')"
       "style_count (get_daily_stats today d') =
          style_count (get_daily_stats today d) + count_category u es (S ''style'')"
       "vocabulary_count (get_daily_stats today d') =
          vocabulary_count (get_daily_stats today d) + count_category u es (S ''vocabulary'')"
    using eff(5) by simp_all
  with eff(1,2,4,6) norm show ?thesis by blast
qed

theorem record_increments_today_witness:
  "save_correction sample_ucd (739923, 0) 739923 (S ''I has a error'')
     (JStr (S ''I has a error''))
     (JArr [finding ''teh'' ''the'' (JStr (S ''spelling'')),
            finding ''has'' ''have'' (JStr (S ''grammar'')),
            finding ''a'' ''an'' (JStr (S ''article''))]) JNull JNull week_db
   = (Inr 1, snd (save_correction sample_ucd (739923, 0) 739923 (S ''I has a error'')
     (JStr (S ''I has a error''))
     (JArr [finding ''teh'' ''the'' (JStr (S ''spelling'')),
            finding ''has'' ''have'' (JStr (S ''grammar'')),
            finding ''a'' ''an'' (JStr (S ''article''))]) JNull JNull week_db)) \<and>
   get_daily_stats 739923 (snd (save_correction sample_ucd (739923, 0) 739923 (S ''I has a error'')
     (JStr (S ''I has a error''))
     (JArr [finding ''teh'' ''the'' (JStr (S ''spelling'')),
            finding ''has'' ''have'' (JStr (S ''grammar'')),
            finding ''a'' ''an'' (JStr (S ''article''))]) JNull JNull week_db))
   = \<lparr>total_corrections = 4, spelling_count = 2, grammar_count = 4, style_count = 0,
      vocabulary_count = 0\<rparr> \<and>
   t_daily_stats (snd (save_correction sample_ucd (739923, 0) 739923 (S ''I has a error'')
     (JStr (S ''I has a error''))
     (JArr [finding ''teh'' ''the'' (JStr (S ''spelling'')),
            finding ''has'' ''have'' (JStr (S ''grammar'')),
            finding ''a'' ''an'' (JStr (S ''article''))]) JNull JNull week_db)) 739922
   = t_daily_stats week_db 739922"
proof -
  let ?errs = "JArr [finding ''teh'' ''the'' (JStr (S ''spelling'')),
            finding ''has'' ''have'' (JStr (S ''grammar'')),
            finding ''a'' ''an'' (JStr (S ''article''))]"
  let ?run = "save_correction sample_ucd (739923, 0) 739923 (S ''I has a error'')
     (JStr (S ''I has a error'')) ?errs JNull JNull week_db"
  have fst: "fst ?run = Inr 1"
    by (simp add: db_eval week_db_def)
  then have h: "?run = (Inr 1, snd ?run)"
    by (metis prod.collapse)
  have counts: "count_category sample_ucd
                  [finding ''teh'' ''the'' (JStr (S ''spelling'')),
                   finding ''has'' ''have'' (JStr (S ''grammar'')),
                   finding ''a'' ''an'' (JStr (S ''article''))] (S ''spelling'') = 1"
               "count_category sample_ucd
                  [finding ''teh'' ''the'' (JStr (S ''spelling'')),
                   finding ''has'' ''have'' (JStr (S ''grammar'')),
                   finding ''a'' ''an'' (JStr (S ''article''))] (S ''grammar'') = 2"
               "count_category sample_ucd
                  [finding ''teh'' ''the'' (JStr (S ''spelling'')),
                   finding ''has'' ''have'' (JStr (S ''grammar'')),
                   finding ''a'' ''an'' (JStr (S ''article''))] (S ''style'') = 0"
               "count_category sample_ucd
                  [finding ''teh'' ''the'' (JStr (S ''spelling'')),
                   finding ''has'' ''have'' (JStr (S ''grammar'')),
                   finding ''a'' ''an'' (JStr (S ''article''))] (S ''vocabulary'') = 0"
    by (simp_all add: count_category_def db_eval)
  have old: "get_daily_stats 739923 week_db =
               \<lparr>total_corrections = 3, spelling_count = 1, grammar_count = 2,
                style_count = 0, vocabulary_count = 0\<rparr>"
    by (simp add: get_daily_stats_def week_db_def)
  from record_increments_today [OF h] obtain es rows where
    es: "iterate ?errs = Inr es"
    and inc: "total_corrections (get_daily_stats 739923 (snd ?run)) =
             total_corrections (get_daily_stats 739923 week_db) + 1"
      "spelling_count (get_daily_stats 739923 (snd ?run)) =
             spelling_count (get_daily_stats 739923 week_db) + count_category sample_ucd es (S ''spelling'')"
      "grammar_count (get_daily_stats 739923 (snd ?run)) =
             grammar_count (get_daily_stats 739923 week_db) + count_category sample_ucd es (S ''grammar'')"
      "style_count (get_daily_stats 739923 (snd ?run)) =
             style_count (get_daily_stats 739923 week_db) + count_category sample_ucd es (S ''style'')"
      "vocabulary_count (get_daily_stats 739923 (snd ?run)) =
             vocabulary_count (get_daily_stats 739923 week_db) + count_category sample_ucd es (S ''vocabulary'')"
    and frame: "\<forall>day. day \<noteq> 739923 \<longrightarrow> t_daily_stats (snd ?run) day = t_daily_stats week_db day"
    by blast
  from es have es': "es = [finding ''teh'' ''the'' (JStr (S ''spelling'')),
            finding ''has'' ''have'' (JStr (S ''grammar'')),
            finding ''a'' ''an'' (JStr (S ''article''))]"
    by simp
  have "get_daily_stats 739923 (snd ?run) =
          \<lparr>total_corrections = 4, spelling_count = 2, grammar_count = 4, style_count = 0,
           vocabulary_count = 0\<rparr>"
    using inc unfolding es' counts old by (cases "get_daily_stats 739923 (snd ?run)") simp
  moreover have "t_daily_stats (snd ?run) 739922 = t_daily_stats week_db 739922"
    using frame by simp
  ultimately show ?thesis using h by simp
qed

text \<open>
  The claim as worded fails for a category that differs from a name only in letter
  case: \<open>Spelling\<close> is not one of the four strings, yet it is stored as \<open>spelling\<close> and
  counted as spelling, not as grammar.
\<close>

theorem category_case_counterexample:
  "S ''Spelling'' \<notin> set category_names \<and>
   map e_category (t_errors (snd (save_correction sample_ucd (739923, 0) 739923
       (S ''I has a error'') (JStr (S ''I has a error''))
       (JArr [finding ''teh'' ''the'' (JStr (S ''Spelling''))]) JNull JNull empty_db)))
     = [S ''spelling''] \<and>
   spelling_count (get_daily_stats 739923 (snd (save_correction sample_ucd (739923, 0) 739923
       (S ''I has a error'') (JStr (S ''I has a error''))
       (JArr [finding ''teh'' ''the'' (JStr (S ''Spelling''))]) JNull JNull empty_db))) = 1 \<and>
   grammar_count (get_daily_stats 739923 (snd (save_correction sample_ucd (739923, 0) 739923
       (S ''I has a error'') (JStr (S ''I has a error''))
       (JArr [finding ''teh'' ''the'' (JStr (S ''Spelling''))]) JNull JNull empty_db))) = 0"
  by (simp add: db_eval)

text \<open>
  C4. The weekly query reports the number of \<open>daily_stats\<close> rows of the week under
  the name \<open>total_corrections\<close>, not the sum of their totals: for a store whose only row,
  on 2026-11-03, counts three corrections, the week of that day reports 1, while the
  rows' totals sum to 3 and the all-time query reports 3.
\<close>

theorem weekly_total_counts_rows:
  "get_weekly_stats 739923 0 week_db =
     Inr \<lparr>week_start = 739922, week_end = 739928, week_total_corrections = 1,
          week_spelling_count = 1, week_grammar_count = 2, week_style_count = 0,
          week_vocabulary_count = 0\<rparr> \<and>
   sum_list (map total_corrections (rows_between week_db 739922 739928)) = 3 \<and>
   all_total_corrections (get_all_time_stats [739923] week_db) = 3"
  by (simp add: get_weekly_stats_def timedelta_def date_plus_def weekday_def rows_between_def
      week_db_def empty_db_def List.map_filter_simps upto.simps get_all_time_stats_def)

text \<open>
  What does hold of the weekly query: the window starts on a Monday, spans seven days,
  the category counts are the sums over the rows of the window, and the windows of this
  week and of last week are adjacent.
\<close>

lemma weekly_window:
  assumes "get_weekly_stats today weeks_back d = Inr r"
  shows "week_start r = today - weekday today - 7 * weeks_back"
    and "weekday (week_start r) = 0"
    and "week_end r = week_start r + 6"
    and "week_total_corrections r = length (rows_between d (week_start r) (week_end r))"
    and "week_spelling_count r = sum_list (map spelling_count (rows_between d (week_start r) (week_end r)))"
    and "week_grammar_count r = sum_list (map grammar_count (rows_between d (week_start r) (week_end r)))"
    and "week_style_count r = sum_list (map style_count (rows_between d (week_start r) (week_end r)))"
    and "week_vocabulary_count r = sum_list (map vocabulary_count (rows_between d (week_start r) (week_end r)))"
proof -
  show "week_start r = today - weekday today - 7 * weeks_back"
    "week_end r = week_start r + 6"
    "week_total_corrections r = length (rows_between d (week_start r) (week_end r))"
    "week_spelling_count r = sum_list (map spelling_count (rows_between d (week_start r) (week_end r)))"
    "week_grammar_count r = sum_list (map grammar_count (rows_between d (week_start r) (week_end r)))"
    "week_style_count r = sum_list (map style_count (rows_between d (week_start r) (week_end r)))"
    "week_vocabulary_count r = sum_list (map vocabulary_count (rows_between d (week_start r) (week_end r)))"
    using assms
    by (auto simp: get_weekly_stats_def timedelta_def date_plus_def Let_def
        split: if_splits sum.splits)
  then show "weekday (week_start r) = 0"
    unfolding weekday_def by presburger
qed

lemma weekly_windows_adjacent:
  assumes "get_weekly_stats today 0 d = Inr r0" and "get_weekly_stats today 1 d = Inr r1"
  shows "week_start r0 = week_end r1 + 1"
  using weekly_window(1,3) [OF assms(1)] weekly_window(1,3) [OF assms(2)] by simp

section \<open>Properties of the analyzer gateway\<close>

lemma find_braces_span:
  assumes "123 \<notin> set pre" and "125 \<notin> set post"
  shows "find_braces (pre @ 123 # mid @ 125 # post) = Some (123 # mid @ [125])"
proof -
  have a: "dropWhile (\<lambda>c. c \<noteq> 123) (pre @ 123 # mid @ 125 # post) = 123 # mid @ 125 # post"
    using assms(1) by (auto simp: dropWhile_append3)
  have "dropWhile (\<lambda>c. c \<noteq> 125) (rev post @ 125 # rev mid @ [123]) = 125 # rev mid @ [123]"
    using assms(2) by (auto simp: dropWhile_append3)
  then have b: "rev (dropWhile (\<lambda>c. c \<noteq> 125) (rev (123 # mid @ 125 # post))) = 123 # mid @ [125]"
    by simp
  show ?thesis
    unfolding find_braces_def a Let_def b by simp
qed

lemma find_braces_Some:
  assumes "find_braces t = Some m"
  shows "\<exists>pre mid post. t = pre @ m @ post \<and> m = 123 # mid @ [125] \<and>
           123 \<notin> set pre \<and> 125 \<notin> set post"
proof -
  let ?r = "dropWhile (\<lambda>c. c \<noteq> 123) t"
  let ?pre = "takeWhile (\<lambda>c. c \<noteq> 123) t"
  let ?d = "dropWhile (\<lambda>c. c \<noteq> 125) (rev ?r)"
  let ?post = "rev (takeWhile (\<lambda>c. c \<noteq> 125) (rev ?r))"
  from assms have m: "m = rev ?d" and ne: "?d \<noteq> []"
    by (auto simp: find_braces_def Let_def split: if_splits)
  have e: "rev (takeWhile (\<lambda>c. c \<noteq> 125) (rev ?r) @ ?d) = ?r"
    by (simp only: takeWhile_dropWhile_id rev_rev_ident)
  have r: "?r = m @ ?post"
    unfolding m using e [symmetric] by (simp only: rev_append)
  have t: "t = ?pre @ m @ ?post"
    using takeWhile_dropWhile_id [of "\<lambda>c. c \<noteq> 123" t] r by simp
  have pre: "123 \<notin> set ?pre"
    by (auto dest: set_takeWhileD)
  have post: "125 \<notin> set ?post"
    by (auto dest: set_takeWhileD)
  from ne have mne: "m \<noteq> []" by (simp add: m)
  then have rne: "?r \<noteq> []"
    by (metis r append_is_Nil_conv)
  have "hd ?r = 123"
    using hd_dropWhile [OF rne] by simp
  with r mne have hd: "hd m = 123"
    by (metis hd_append2)
  have "hd ?d = 125"
    using hd_dropWhile [OF ne] by simp
  then have last: "last m = 125"
    using ne by (simp add: m last_rev)
  from mne hd obtain ms where ms: "m = 123 # ms"
    by (cases m) auto
  with last have "ms \<noteq> []" by auto
  then obtain mid where "ms = mid @ [last ms]"
    by (metis append_butlast_last_id)
  moreover have "last ms = 125"
    using last ms \<open>ms \<noteq> []\<close> by simp
  ultimately have "m = 123 # mid @ [125]"
    using ms by simp
  with t pre post show ?thesis by blast
qed

lemma parse_response_first: "loads t = Some v \<Longrightarrow> parse_response loads t = v"
  by (simp add: parse_response_def)

lemma parse_response_second:
  "loads t = None \<Longrightarrow> find_braces t = Some m \<Longrightarrow>
     parse_response loads t = (case loads m of Some v \<Rightarrow> v | None \<Rightarrow> JNull)"
  by (simp add: parse_response_def)

lemma parse_response_none:
  "loads t = None \<Longrightarrow> find_braces t = None \<Longrightarrow> parse_response loads t = JNull"
  by (simp add: parse_response_def)

lemma parse_response_no_json:
  assumes "\<forall>s. sublist s t \<longrightarrow> loads s = None"
  shows "parse_response loads t = JNull"
proof -
  have whole: "loads t = None"
    using assms by auto
  show ?thesis
  proof (cases "find_braces t")
    case None
    with whole show ?thesis by (simp add: parse_response_none)
  next
    case (Some m)
    from find_braces_Some [OF Some] obtain pre post where "t = pre @ m @ post"
      by blast
    then have "sublist m t"
      by (auto simp: sublist_def)
    with assms have "loads m = None" by blast
    with whole Some show ?thesis by (simp add: parse_response_second)
  qed
qed

lemma sample_no_json:
  assumes "sublist s (S ''I cannot help with that'')"
  shows "sample_loads s = None"
proof -
  have "123 \<notin> set (S ''I cannot help with that'')"
    by (simp add: S_def)
  moreover have "set s \<subseteq> set (S ''I cannot help with that'')"
    using assms by (auto simp: sublist_def)
  ultimately have "123 \<notin> set s" by blast
  then have "s \<noteq> 123 # sample_json_inner @ [125]" by auto
  then show ?thesis by (simp add: sample_loads_def)
qed

text \<open>
  C9 (as amended). The gateway returns the strict parse of the response text when it
  succeeds. When it fails, the text from the first opening brace through the last
  closing brace is parsed instead, and the result is \<open>None\<close> when there is no such span or it does not
  parse. Hence an object standing in prose that has no brace before it and none after
  it is recovered, and a text of which no part parses yields \<open>None\<close>. This parsing is
  what \<open>analyze_grammar\<close> returns when the service answered.
\<close>

theorem parse_response_fallback:
  "(loads t = Some v \<longrightarrow> parse_response loads t = v) \<and>
   (loads t = None \<and> find_braces t = Some m \<longrightarrow>
      (\<exists>pre mid post. t = pre @ m @ post \<and> m = 123 # mid @ [125] \<and>
         123 \<notin> set pre \<and> 125 \<notin> set post) \<and>
      parse_response loads t = (case loads m of Some x \<Rightarrow> x | None \<Rightarrow> JNull)) \<and>
   (loads t = None \<and> find_braces t = None \<longrightarrow> parse_response loads t = JNull) \<and>
   (loads (pre @ 123 # mid @ 125 # post) = None \<and> 123 \<notin> set pre \<and> 125 \<notin> set post \<and>
    loads (123 # mid @ [125]) = Some v \<longrightarrow>
      parse_response loads (pre @ 123 # mid @ 125 # post) = v) \<and>
   ((\<forall>s. sublist s t \<longrightarrow> loads s = None) \<longrightarrow> parse_response loads t = JNull) \<and>
   (anthropic_installed env \<and> api_key env = Some key \<and> key \<noteq> [] \<and>
    api_reply env n msg = Inr reply \<longrightarrow>
      analyze_result env n msg = parse_response (json_loads env) (strip (tables env) reply))"
  using find_braces_Some [of t m] find_braces_span [of pre post mid]
  by (auto simp: parse_response_first parse_response_second parse_response_none
      parse_response_no_json analyze_result_def)

theorem parse_response_fallback_witness:
  "sample_loads sample_reply = None \<and>
   parse_response sample_loads sample_reply = sample_analysis \<and>
   parse_response sample_loads (123 # sample_json_inner @ [125]) = sample_analysis \<and>
   parse_response sample_loads (S ''I cannot help with that'') = JNull \<and>
   analyze_result online_env 0 sample_text = parse_response sample_loads sample_reply"
proof -
  have n: "sample_loads (S ''Here is the analysis: '' @ 123 # sample_json_inner @ 125 # S '' Done.'')
             = None"
    by (simp add: sample_loads_def S_def)
  have p: "123 \<notin> set (S ''Here is the analysis: '')" "125 \<notin> set (S '' Done.'')"
    by (simp_all add: S_def)
  have l: "sample_loads (123 # sample_json_inner @ [125]) = Some sample_analysis"
    by (simp add: sample_loads_def)
  have j: "\<forall>s. sublist s (S ''I cannot help with that'') \<longrightarrow> sample_loads s = None"
    using sample_no_json by blast
  have e: "anthropic_installed online_env" "api_key online_env = Some (S ''sk-test'')"
    "S ''sk-test'' \<noteq> []" "api_reply online_env 0 sample_text = Inr sample_reply"
    "json_loads online_env = sample_loads"
    "strip (tables online_env) sample_reply = sample_reply"
    by (simp_all add: online_env_def S_def sample_reply_def strip_def isspace_def)
  have prose: "parse_response sample_loads sample_reply = sample_analysis \<and>
               parse_response sample_loads (S ''I cannot help with that'') = JNull \<and>
               analyze_result online_env 0 sample_text = parse_response sample_loads sample_reply"
    using n p l j e
      parse_response_fallback [where loads = sample_loads
        and t = "S ''I cannot help with that''" and pre = "S ''Here is the analysis: ''"
        and mid = sample_json_inner and post = "S '' Done.''" and v = sample_analysis
        and env = online_env and key = "S ''sk-test''" and n = 0 and msg = sample_text
        and reply = sample_reply]
    by (simp add: sample_reply_def)
  have strict: "parse_response sample_loads (123 # sample_json_inner @ [125]) = sample_analysis"
    using l parse_response_fallback [where loads = sample_loads
        and t = "123 # sample_json_inner @ [125]" and v = sample_analysis]
    by blast
  show ?thesis
    using n prose strict by (simp add: sample_reply_def)
qed

text \<open>
  The claim as worded fails when the prose has a brace of its own: the span from the
  first opening brace to the last closing brace is then not the object, it does not
  parse, and the result is \<open>None\<close> although the text embeds one valid object.
\<close>

theorem braces_in_prose_counterexample:
  "sample_loads (123 # sample_json_inner @ [125]) = Some sample_analysis \<and>
   parse_response sample_loads (S ''Note {draft}: '' @ 123 # sample_json_inner @ [125]) = JNull"
  by (simp add: sample_loads_def parse_response_def find_braces_def S_def sample_json_inner_def
      quoted_def)

section \<open>Properties of the hook\<close>

lemma analyze_grammar_eq:
  "analyze_grammar env m w = (a, w1) \<Longrightarrow>
     a = analyze_result env (gateway_calls w) m \<and>
     w1 = w\<lparr>calls := calls w @ [Analyze m], gateway_calls := gateway_calls w + 1\<rparr>"
  by (auto simp: analyze_grammar_def)

lemma save_to_obsidian_frame:
  assumes "save_to_obsidian env m a w = (r, w1)"
  shows "db w1 = db w \<and> retry_queue w1 = retry_queue w \<and>
         gateway_calls w1 = gateway_calls w \<and> calls w1 = calls w @ [LogAppend]"
  using assms
  by (auto simp: save_to_obsidian_def Let_def split: if_splits sum.splits)

lemma save_to_db_frame:
  assumes "save_to_db env ot ut errs be su w = (r, w1)"
  shows "obsidian w1 = obsidian w \<and> retry_queue w1 = retry_queue w \<and>
         gateway_calls w1 = gateway_calls w \<and> calls w1 = calls w @ [DbRecord] \<and>
         ((\<exists>e. r = Inl e) \<longrightarrow> db w1 = db w)"
  using assms save_correction_Inl
  by (fastforce simp: save_to_db_def split: prod.splits)

lemma process_analysis_frame:
  assumes "process_analysis env p a w = (r, w1)"
  shows "retry_queue w1 = retry_queue w \<and> gateway_calls w1 = gateway_calls w"
  using assms
  by (auto simp: process_analysis_def split: json.splits if_splits prod.splits sum.splits
      dest!: save_to_obsidian_frame save_to_db_frame)

lemma check_grammar_try_queue:
  "retry_queue (snd (check_grammar_try env i w)) = retry_queue w"
proof (cases "check_grammar_try env i w")
  case (Pair r w')
  then have "retry_queue w' = retry_queue w"
    by (auto simp: check_grammar_try_def analyze_grammar_def
        split: json.splits if_splits prod.splits sum.splits
        dest!: save_to_obsidian_frame save_to_db_frame)
  with Pair show ?thesis by simp
qed

lemmas sample_eval = quoted_def sample_text_def sample_input_def sample_analysis_def
  sample_json_inner_def sample_loads_def sample_reply_def online_env_def empty_world_def
  sample_ucd_def

lemmas world_eval = check_grammar_main_def check_grammar_try_def analyze_grammar_def
  analyze_result_def parse_response_def find_braces_def save_to_obsidian_def save_to_db_def
  log_lines_def py_or_def subscript_def date_of_def process_analysis_def

lemma sample_admitted: "should_check_grammar u sample_text"
  by (simp add: sample_text_def filter_eval)

lemma sample_parse: "parse_response sample_loads (strip sample_ucd sample_reply) = sample_analysis"
  by (simp add: sample_eval parse_response_def find_braces_def strip_def isspace_def S_def)

lemma sample_result: "analyze_result online_env n sample_text = sample_analysis"
  by (simp add: analyze_result_def online_env_def sample_parse S_def)

lemma check_grammar_try_failed:
  assumes "py_or (dget data (S ''prompt'') (JStr [])) (dget data (S ''user_prompt'') (JStr []))
             = JStr p"
    and "should_check_grammar (tables env) p"
    and "\<not> truthy (analyze_result env (gateway_calls w) p)"
  shows "check_grammar_try env (JObj data) w =
           (Inr (), w\<lparr>calls := calls w @ [Analyze p], gateway_calls := gateway_calls w + 1\<rparr>)"
  using assms by (simp add: check_grammar_try_def analyze_grammar_def)

text \<open>
  C1 (as amended). The hook never writes the retry queue and always answers with the
  empty JSON object; when the analysis of an admitted text fails, the call of the
  gateway is all that happened: the store, the log and the queue are as before.
\<close>

theorem failed_analysis_not_enqueued:
  "retry_queue (snd (check_grammar_main env input_data w)) = retry_queue w \<and>
   fst (check_grammar_main env input_data w) = JObj [] \<and>
   (input_data = JObj data \<and>
    py_or (dget data (S ''prompt'') (JStr [])) (dget data (S ''user_prompt'') (JStr []))
      = JStr p \<and>
    should_check_grammar (tables env) p \<and>
    analyze_result env (gateway_calls w) p = JNull \<longrightarrow>
      snd (check_grammar_main env input_data w) =
        w\<lparr>calls := calls w @ [Analyze p], gateway_calls := gateway_calls w + 1\<rparr>)"
  using check_grammar_try_failed [of data p env w]
  by (auto simp: check_grammar_main_def check_grammar_try_queue)

theorem failed_analysis_not_enqueued_witness:
  "analyze_result offline_env (gateway_calls empty_world) sample_text = JNull \<and>
   should_check_grammar (tables offline_env) sample_text \<and>
   snd (check_grammar_main offline_env sample_input empty_world) =
     empty_world\<lparr>calls := calls empty_world @ [Analyze sample_text],
                 gateway_calls := gateway_calls empty_world + 1\<rparr> \<and>
   retry_queue (snd (check_grammar_main offline_env sample_input empty_world)) =
     retry_queue empty_world"
proof -
  have a: "analyze_result offline_env (gateway_calls empty_world) sample_text = JNull"
    by (simp add: analyze_result_def offline_env_def)
  have b: "should_check_grammar (tables offline_env) sample_text"
    by (rule sample_admitted)
  have c: "py_or (dget [(S ''prompt'', JStr sample_text)] (S ''prompt'') (JStr []))
             (dget [(S ''prompt'', JStr sample_text)] (S ''user_prompt'') (JStr []))
           = JStr sample_text"
    by (simp add: py_or_def dget_def sample_text_def S_def)
  show ?thesis
    using a b c
      failed_analysis_not_enqueued [of offline_env sample_input empty_world
        "[(S ''prompt'', JStr sample_text)]" sample_text]
    by (simp add: sample_input_def)
qed

text \<open>
  The claim as worded fails: without the \<open>anthropic\<close> package the analysis of the admitted
  sample text fails, and the queue, empty before the hook ran, is empty after it.
\<close>

theorem failed_analysis_enqueue_counterexample:
  "should_check_grammar (tables offline_env) sample_text \<and>
   analyze_result offline_env (gateway_calls empty_world) sample_text = JNull \<and>
   retry_queue (snd (check_grammar_main offline_env sample_input empty_world)) = []"
  by (simp add: sample_admitted analyze_result_def offline_env_def check_grammar_try_queue
      check_grammar_main_def empty_world_def)

lemma process_analysis_calls:
  assumes "\<not> truthy (dget kvs (S ''skipped'') JNull)"
    and "truthy (dget kvs (S ''has_errors'') JNull) \<or>
         truthy (dget kvs (S ''better_expression'') JNull)"
  shows "calls (snd (process_analysis env p (JObj kvs) w)) =
           calls w @ (if \<exists>e. fst (save_to_obsidian env p (JObj kvs) w) = Inl e
                      then [LogAppend] else [LogAppend, DbRecord])"
proof (cases "save_to_obsidian env p (JObj kvs) w")
  case (Pair r w1)
  note obs = save_to_obsidian_frame [OF Pair]
  show ?thesis
  proof (cases r)
    case (Inl e)
    with Pair assms obs show ?thesis
      by (auto simp: process_analysis_def)
  next
    case (Inr ok)
    obtain r2 w2 where db:
      "save_to_db env p (dget kvs (S ''user_text'') (JStr p)) (dget kvs (S ''errors'') (JArr []))
         (dget kvs (S ''better_expression'') JNull) (dget kvs (S ''summary'') JNull) w1 = (r2, w2)"
      by (cases "save_to_db env p (dget kvs (S ''user_text'') (JStr p))
         (dget kvs (S ''errors'') (JArr [])) (dget kvs (S ''better_expression'') JNull)
         (dget kvs (S ''summary'') JNull) w1") auto
    from save_to_db_frame [OF db] obs have "calls w2 = calls w @ [LogAppend, DbRecord]"
      by simp
    with Pair Inr assms db show ?thesis
      by (cases r2) (auto simp: process_analysis_def)
  qed
qed

lemma check_grammar_try_records:
  assumes "py_or (dget data (S ''prompt'') (JStr [])) (dget data (S ''user_prompt'') (JStr []))
             = JStr p"
    and "should_check_grammar (tables env) p"
    and "analyze_result env (gateway_calls w) p = JObj kvs"
    and "\<not> truthy (dget kvs (S ''skipped'') JNull)"
    and "truthy (dget kvs (S ''has_errors'') JNull) \<or>
         truthy (dget kvs (S ''better_expression'') JNull)"
  shows "snd (check_grammar_try env (JObj data) w) =
           snd (process_analysis env p (JObj kvs) (snd (analyze_grammar env p w)))"
proof -
  from assms(5) have "kvs \<noteq> []"
    by (auto simp: dget_def)
  then show ?thesis
    using assms
    by (auto simp: check_grammar_try_def process_analysis_def analyze_grammar_def
        split: prod.splits sum.splits)
qed

text \<open>
  C2 (as amended). When the analysis is not skipped and has a truthy \<open>has_errors\<close> or a
  truthy \<open>better_expression\<close>, the retry run and the hook call the log writer first and
  the structured store second; the store is not called when the log writer raised.
\<close>

theorem log_before_store:
  assumes "\<not> truthy (dget kvs (S ''skipped'') JNull)"
    and "truthy (dget kvs (S ''has_errors'') JNull) \<or>
         truthy (dget kvs (S ''better_expression'') JNull)"
  shows "calls (snd (process_analysis env p (JObj kvs) w)) =
           calls w @ (if \<exists>e. fst (save_to_obsidian env p (JObj kvs) w) = Inl e
                      then [LogAppend] else [LogAppend, DbRecord]) \<and>
         (py_or (dget data (S ''prompt'') (JStr [])) (dget data (S ''user_prompt'') (JStr []))
            = JStr p \<and>
          should_check_grammar (tables env) p \<and>
          analyze_result env (gateway_calls w) p = JObj kvs \<longrightarrow>
          calls (snd (check_grammar_main env (JObj data) w)) =
            calls w @ [Analyze p] @
              (if \<exists>e. fst (save_to_obsidian env p (JObj kvs) (snd (analyze_grammar env p w))) = Inl e
               then [LogAppend] else [LogAppend, DbRecord]))"
proof -
  have a: "calls (snd (analyze_grammar env p w)) = calls w @ [Analyze p]"
    by (simp add: analyze_grammar_def)
  show ?thesis
    using process_analysis_calls [OF assms, of env p]
      check_grammar_try_records [of data p env w kvs] assms a
    by (auto simp: check_grammar_main_def)
qed

lemma sample_lookups:
  "\<not> truthy (dget [(S ''has_errors'', JBool True),
           (S ''errors'', JArr [JObj [(S ''original'', JStr (S ''has'')),
                                      (S ''correction'', JStr (S ''have'')),
                                      (S ''category'', JStr (S ''grammar''))]]),
           (S ''better_expression'', JStr (S ''I have an error here'')),
           (S ''skipped'', JBool False)] (S ''skipped'') JNull)"
  "truthy (dget [(S ''has_errors'', JBool True),
           (S ''errors'', JArr [JObj [(S ''original'', JStr (S ''has'')),
                                      (S ''correction'', JStr (S ''have'')),
                                      (S ''category'', JStr (S ''grammar''))]]),
           (S ''better_expression'', JStr (S ''I have an error here'')),
           (S ''skipped'', JBool False)] (S ''has_errors'') JNull)"
  by (simp_all add: dget_def S_def)

theorem log_before_store_witness:
  "calls (snd (process_analysis online_env sample_text sample_analysis empty_world)) =
     calls empty_world @ [LogAppend, DbRecord]"
proof -
  have ok: "fst (save_to_obsidian online_env sample_text sample_analysis empty_world) = Inr True"
    by (simp add: world_eval sample_eval db_eval)
  show ?thesis
    using ok sample_lookups
      log_before_store [of "[(S ''has_errors'', JBool True),
           (S ''errors'', JArr [JObj [(S ''original'', JStr (S ''has'')),
                                      (S ''correction'', JStr (S ''have'')),
                                      (S ''category'', JStr (S ''grammar''))]]),
           (S ''better_expression'', JStr (S ''I have an error here'')),
           (S ''skipped'', JBool False)]" online_env sample_text empty_world]
    by (simp add: sample_analysis_def)
qed

text \<open>
  The claim as worded fails: on the sample analysis both scripts append to the log
  before they record in the store.
\<close>

theorem store_first_counterexample:
  "calls (snd (check_grammar_main online_env sample_input empty_world)) =
     [Analyze sample_text, LogAppend, DbRecord] \<and>
   calls (snd (process_analysis online_env sample_text sample_analysis empty_world)) =
     [LogAppend, DbRecord]"
  by (simp add: world_eval sample_eval db_eval filter_eval)

text \<open>
  C3. When the log directory cannot be created, the log writer raises instead of
  returning \<open>False\<close>, and the hook, which calls it before the store, records nothing:
  the store stays empty although the analysis had findings. When only the write to the
  file fails, the log writer returns \<open>False\<close> and the correction is recorded.
\<close>

theorem log_directory_failure_blocks_store:
  "fst (save_to_obsidian (online_env\<lparr>mkdir_ok := False\<rparr>) sample_text sample_analysis
          empty_world) = Inl OSError \<and>
   db (snd (check_grammar_main (online_env\<lparr>mkdir_ok := False\<rparr>) sample_input empty_world))
     = empty_db \<and>
   fst (save_to_obsidian (online_env\<lparr>log_write_ok := False\<rparr>) sample_text sample_analysis
          empty_world) = Inr False \<and>
   total_corrections (get_daily_stats 739923
     (db (snd (check_grammar_main (online_env\<lparr>log_write_ok := False\<rparr>) sample_input
                empty_world)))) = 1"
  by (simp add: world_eval sample_eval db_eval filter_eval)

section \<open>Properties of the retry run\<close>

lemma analyze_with_retry_eq:
  "analyze_with_retry env s w =
     (if analyze_result env (gateway_calls w) s \<noteq> JNull
      then (analyze_result env (gateway_calls w) s,
            w\<lparr>calls := calls w @ [Analyze s], gateway_calls := gateway_calls w + 1\<rparr>)
      else (analyze_result env (gateway_calls w + 1) s,
            w\<lparr>calls := calls w @ [Analyze s, Sleep 2, Analyze s],
              gateway_calls := gateway_calls w + 2\<rparr>))"
  by (simp add: analyze_with_retry_def analyze_grammar_def)

lemma drain_loop_Cons_cases:
  assumes "drain_loop env (item # rest) acc w = (Inr acc', w')"
  shows "(\<exists>v. get_method item (S ''prompt'') (JStr []) = Inr v \<and> \<not> truthy v \<and>
            drain_loop env rest acc w = (Inr acc', w')) \<or>
         (\<exists>s. get_method item (S ''prompt'') (JStr []) = Inr (JStr s) \<and> s \<noteq> [] \<and>
            \<not> should_check_grammar (tables env) s \<and>
            drain_loop env rest (acc\<lparr>success_count := success_count acc + 1\<rparr>) w
              = (Inr acc', w')) \<or>
         (\<exists>s w1. get_method item (S ''prompt'') (JStr []) = Inr (JStr s) \<and> s \<noteq> [] \<and>
            should_check_grammar (tables env) s \<and>
            analyze_with_retry env s w = (JNull, w1) \<and>
            drain_loop env rest (acc\<lparr>still_failed := still_failed acc @ [item]\<rparr>) w1
              = (Inr acc', w')) \<or>
         (\<exists>s a w1 h w2. get_method item (S ''prompt'') (JStr []) = Inr (JStr s) \<and> s \<noteq> [] \<and>
            should_check_grammar (tables env) s \<and>
            analyze_with_retry env s w = (a, w1) \<and> a \<noteq> JNull \<and>
            process_analysis env s a w1 = (Inr h, w2) \<and>
            drain_loop env rest
              (acc\<lparr>success_count := success_count acc + 1,
                   findings_count := findings_count acc + (if h then 1 else 0)\<rparr>) w2
              = (Inr acc', w'))"
  using assms
  by (simp split: sum.splits json.splits if_splits prod.splits) auto

lemma drain_loop_still_failed:
  "drain_loop env q acc w = (Inr acc', w') \<Longrightarrow>
     still_failed acc' = still_failed acc @ spec_still_queued env (gateway_calls w) q \<and>
     success_count acc' + length (still_failed acc') =
       success_count acc + length (still_failed acc) + length (filter has_prompt q)"
proof (induction q arbitrary: acc w)
  case Nil
  then show ?case by simp
next
  case (Cons item rest)
  from drain_loop_Cons_cases [OF Cons.prems]
  consider
    (skip) v where "get_method item (S ''prompt'') (JStr []) = Inr v" "\<not> truthy v"
      "drain_loop env rest acc w = (Inr acc', w')"
  | (rejected) s where "get_method item (S ''prompt'') (JStr []) = Inr (JStr s)" "s \<noteq> []"
      "\<not> should_check_grammar (tables env) s"
      "drain_loop env rest (acc\<lparr>success_count := success_count acc + 1\<rparr>) w = (Inr acc', w')"
  | (failed) s w1 where "get_method item (S ''prompt'') (JStr []) = Inr (JStr s)" "s \<noteq> []"
      "should_check_grammar (tables env) s" "analyze_with_retry env s w = (JNull, w1)"
      "drain_loop env rest (acc\<lparr>still_failed := still_failed acc @ [item]\<rparr>) w1 = (Inr acc', w')"
  | (resolved) s a w1 h w2 where "get_method item (S ''prompt'') (JStr []) = Inr (JStr s)"
      "s \<noteq> []" "should_check_grammar (tables env) s" "analyze_with_retry env s w = (a, w1)"
      "a \<noteq> JNull" "process_analysis env s a w1 = (Inr h, w2)"
      "drain_loop env rest
         (acc\<lparr>success_count := success_count acc + 1,
              findings_count := findings_count acc + (if h then 1 else 0)\<rparr>) w2 = (Inr acc', w')"
    by blast
  then show ?case
  proof cases
    case skip
    from Cons.IH [OF skip(3)] skip(1,2) show ?thesis
      by (cases v) (auto simp: has_prompt_def)
  next
    case rejected
    from Cons.IH [OF rejected(4)] rejected(1,2,3) show ?thesis
      by (auto simp: has_prompt_def)
  next
    case failed
    from failed(4) have a: "analyze_result env (gateway_calls w) s = JNull"
      "analyze_result env (gateway_calls w + 1) s = JNull" "gateway_calls w1 = gateway_calls w + 2"
      by (auto simp: analyze_with_retry_eq split: if_splits)
    from Cons.IH [OF failed(5)] failed(1,2,3) a show ?thesis
      by (auto simp: has_prompt_def)
  next
    case resolved
    from resolved(4,5) have a:
      "(analyze_result env (gateway_calls w) s \<noteq> JNull \<and> gateway_calls w1 = gateway_calls w + 1) \<or>
       (analyze_result env (gateway_calls w) s = JNull \<and>
        analyze_result env (gateway_calls w + 1) s \<noteq> JNull \<and>
        gateway_calls w1 = gateway_calls w + 2)"
      by (auto simp: analyze_with_retry_eq split: if_splits)
    have b: "gateway_calls w2 = gateway_calls w1"
      using process_analysis_frame [OF resolved(6)] by simp
    from Cons.IH [OF resolved(7)] resolved(1,2,3) a b show ?thesis
      by (auto simp: has_prompt_def)
  qed
qed

lemma subseq_spec_still_queued: "subseq (spec_still_queued env n q) q"
  by (induction q arbitrary: n) (auto split: sum.splits json.splits)


lemma recall_main_Inr:
  assumes "recall_main env w = (Inr msg, w')"
  shows "retry_queue w' = spec_still_queued env (gateway_calls w) (retry_queue w) \<and>
         (case msg of
            NoFailedChecks \<Rightarrow> retry_queue w = []
          | Retried n ok failed \<Rightarrow>
              n = length (retry_queue w) \<and> failed = length (retry_queue w') \<and> failed \<noteq> 0 \<and>
              ok + failed = length (filter has_prompt (retry_queue w))
          | AllCompleted ok found \<Rightarrow>
              retry_queue w' = [] \<and> ok = length (filter has_prompt (retry_queue w)))"
proof (cases "retry_queue w = []")
  case True
  with assms show ?thesis by (auto simp: recall_main_def)
next
  case False
  with assms obtain acc w1 where
    loop: "drain_loop env (retry_queue w)
             \<lparr>success_count = 0, still_failed = [], findings_count = 0\<rparr> w = (Inr acc, w1)"
    and w': "w' = w1\<lparr>retry_queue := still_failed acc\<rparr>"
    and msg: "msg = (if still_failed acc \<noteq> []
                   then Retried (length (retry_queue w)) (success_count acc)
                          (length (still_failed acc))
                   else AllCompleted (success_count acc) (findings_count acc))"
    by (auto simp: recall_main_def Let_def split: prod.splits sum.splits if_splits)
  from drain_loop_still_failed [OF loop] w' msg show ?thesis
    by auto
qed

lemma check_grammar_try_routes:
  assumes "py_or (dget data (S ''prompt'') (JStr [])) (dget data (S ''user_prompt'') (JStr []))
             = JStr p"
    and "should_check_grammar (tables env) p"
    and "analyze_result env (gateway_calls w) p = JObj kvs"
  shows "snd (check_grammar_try env (JObj data) w) =
           snd (process_analysis env p (JObj kvs) (snd (analyze_grammar env p w)))"
proof (cases "kvs = []")
  case True
  with assms show ?thesis
    by (simp add: check_grammar_try_def process_analysis_def analyze_grammar_def dget_def)
next
  case False
  with assms show ?thesis
    by (auto simp: check_grammar_try_def process_analysis_def analyze_grammar_def
        split: prod.splits sum.splits)
qed

lemma bindable_Inr: "bindable v \<Longrightarrow> \<exists>x. sql_bind v = Inr x"
  by (auto simp: bindable_def split: sum.splits)

lemma insert_errors_storable:
  assumes "list_all (finding_storable u) es"
  shows "\<exists>r. insert_errors u cid es cc tx = Inr r"
  using assms
proof (induction es arbitrary: cc tx)
  case Nil
  then show ?case by simp
next
  case (Cons e es)
  from Cons.prems have e: "finding_storable u e" and es: "list_all (finding_storable u) es"
    by simp_all
  from e obtain kvs c where kvs: "e = JObj kvs"
    and c: "dget kvs (S ''category'') (JStr (S ''grammar'')) = JStr c"
    and b: "bindable (dget kvs (S ''original'') (JStr []))"
      "bindable (dget kvs (S ''correction'') (JStr []))"
      "bindable (dget kvs (S ''explanation'') (JStr []))"
    by (auto simp: finding_storable_def split: json.splits)
  from kvs c obtain cat where cat: "normalized_category u e = Inr cat"
    by (auto simp: normalized_category_def get_method_def lower_method_def)
  from b kvs obtain tx' where tx': "insert_error cid e cat tx = Inr tx'"
    by (auto simp: insert_error_def get_method_def dest!: bindable_Inr)
  from Cons.IH [OF es] obtain r where
    "insert_errors u cid es (cc(cat := cc cat + 1)) tx' = Inr r"
    by blast
  then show ?case
    by (simp add: cat tx')
qed

lemma save_correction_storable:
  assumes "bindable ut" "bindable be" "bindable su" "iterate errs = Inr es"
    "list_all (finding_storable u) es"
  shows "\<exists>cid d'. save_correction u now today ot ut errs be su d = (Inr cid, d')"
proof -
  from assms(1,2,3) obtain tx1 where tx1: "insert_correction now ot ut be su d = Inr tx1"
    by (auto simp: insert_correction_def dest!: bindable_Inr)
  from insert_errors_storable [OF assms(5), of "seq_corrections tx1" "\<lambda>c. 0" tx1]
  obtain cc tx2 where "insert_errors u (seq_corrections tx1) es (\<lambda>c. 0) tx1 = Inr (cc, tx2)"
    by auto
  with tx1 assms(4) show ?thesis
    by (simp add: save_correction_def save_correction_tx_def)
qed

lemma error_items_loggable:
  "list_all finding_loggable es \<Longrightarrow> \<exists>items. error_items es = Inr items"
  by (induction es) (auto simp: finding_loggable_def subscript_def split: json.splits)

lemma log_lines_loggable:
  assumes "iterate (dget kvs (S ''errors'') (JArr [])) = Inr es"
    and "truthy (dget kvs (S ''has_errors'') JNull) \<longrightarrow> list_all finding_loggable es"
  shows "\<exists>ls. log_lines ts p (JObj kvs) = Inr ls"
proof (cases "truthy (dget kvs (S ''has_errors'') JNull) \<and> truthy (dget kvs (S ''errors'') JNull)")
  case True
  then have t: "truthy (dget kvs (S ''errors'') JNull)" by simp
  then have "dget kvs (S ''errors'') (JArr []) = dget kvs (S ''errors'') JNull"
    by (auto simp: dget_def split: option.splits)
  with assms(1) have it: "iterate (dget kvs (S ''errors'') JNull) = Inr es" by simp
  from True assms(2) error_items_loggable obtain items where "error_items es = Inr items"
    by blast
  with True it show ?thesis
    by (simp add: log_lines_def Let_def)
next
  case False
  then show ?thesis
    by (auto simp: log_lines_def Let_def)
qed

lemma process_analysis_ok:
  assumes "process_ok env a"
  shows "\<exists>h w2. process_analysis env p a w = (Inr h, w2)"
proof -
  from assms obtain kvs where a: "a = JObj kvs"
    by (auto simp: process_ok_def split: json.splits)
  show ?thesis
  proof (cases "truthy (dget kvs (S ''skipped'') JNull) \<or>
          \<not> (truthy (dget kvs (S ''has_errors'') JNull) \<or>
             truthy (dget kvs (S ''better_expression'') JNull))")
    case True
    then show ?thesis
      by (auto simp: a process_analysis_def)
  next
    case False
    with assms a obtain es where m: "mkdir_ok env"
      and es: "iterate (dget kvs (S ''errors'') (JArr [])) = Inr es"
      and st: "list_all (finding_storable (tables env)) es"
      and lg: "truthy (dget kvs (S ''has_errors'') JNull) \<longrightarrow> list_all finding_loggable es"
      and b: "bindable (dget kvs (S ''user_text'') (JStr []))"
        "bindable (dget kvs (S ''better_expression'') JNull)"
        "bindable (dget kvs (S ''summary'') JNull)"
      by (auto simp: process_ok_def split: sum.splits)
    have ut: "bindable (dget kvs (S ''user_text'') (JStr p))"
      using b(1) by (auto simp: dget_def bindable_def split: option.splits)
    from log_lines_loggable [OF es lg] obtain ls where
      "log_lines (clock env (Suc (clock_reads w))) p (JObj kvs) = Inr ls"
      by blast
    with m obtain ok w1 where
      obs: "save_to_obsidian env p (JObj kvs) w = (Inr ok, w1)"
      by (cases "log_write_ok env") (simp_all add: save_to_obsidian_def Let_def)
    from save_correction_storable [where now = "clock env (clock_reads w1)"
        and today = "date_of (clock env (clock_reads w1 + 1))" and ot = p and d = "db w1",
        OF ut b(2) b(3) es st]
    obtain cid d' where
      "save_correction (tables env) (clock env (clock_reads w1))
         (date_of (clock env (clock_reads w1 + 1))) p
         (dget kvs (S ''user_text'') (JStr p)) (dget kvs (S ''errors'') (JArr []))
         (dget kvs (S ''better_expression'') JNull) (dget kvs (S ''summary'') JNull) (db w1)
       = (Inr cid, d')"
      by blast
    then obtain w2 where
      "save_to_db env p (dget kvs (S ''user_text'') (JStr p)) (dget kvs (S ''errors'') (JArr []))
         (dget kvs (S ''better_expression'') JNull) (dget kvs (S ''summary'') JNull) w1
       = (Inr cid, w2)"
      by (simp add: save_to_db_def)
    with obs False show ?thesis
      by (auto simp: a process_analysis_def)
  qed
qed

lemma drain_loop_completes:
  assumes "list_all entry_ok q" and "gateway_ok env"
  shows "\<exists>acc' w'. drain_loop env q acc w = (Inr acc', w')"
  using assms(1)
proof (induction q arbitrary: acc w)
  case Nil
  then show ?case by simp
next
  case (Cons item rest)
  from Cons.prems have item: "entry_ok item" and rest: "list_all entry_ok rest"
    by simp_all
  from item obtain kvs where kvs: "item = JObj kvs"
    by (auto simp: entry_ok_def split: json.splits)
  let ?v = "dget kvs (S ''prompt'') (JStr [])"
  have g: "get_method item (S ''prompt'') (JStr []) = Inr ?v"
    by (simp add: kvs get_method_def)
  show ?case
  proof (cases "truthy ?v")
    case False
    with g Cons.IH [OF rest, of acc w] show ?thesis by simp
  next
    case True
    with item kvs obtain s where s: "?v = JStr s"
      by (auto simp: entry_ok_def split: json.splits)
    show ?thesis
    proof (cases "should_check_grammar (tables env) s")
      case False
      with g s True Cons.IH [OF rest, of "acc\<lparr>success_count := success_count acc + 1\<rparr>" w]
      show ?thesis by simp
    next
      case adm: True
      obtain a w1 where r: "analyze_with_retry env s w = (a, w1)"
        by (cases "analyze_with_retry env s w") auto
      show ?thesis
      proof (cases "a = JNull")
        case True
        with g s \<open>truthy ?v\<close> adm r
          Cons.IH [OF rest, of "acc\<lparr>still_failed := still_failed acc @ [item]\<rparr>" w1]
        show ?thesis by simp
      next
        case False
        from r have "\<exists>n. a = analyze_result env n s"
          by (auto simp: analyze_with_retry_eq split: if_splits)
        with False assms(2) have "process_ok env a"
          by (auto simp: gateway_ok_def)
        from process_analysis_ok [OF this, of s w1] obtain h w2 where
          pa: "process_analysis env s a w1 = (Inr h, w2)"
          by blast
        from Cons.IH [OF rest, of
            "acc\<lparr>success_count := success_count acc + 1,
                 findings_count := findings_count acc + (if h then 1 else 0)\<rparr>" w2]
          g s \<open>truthy ?v\<close> adm r False pa
        show ?thesis by simp
      qed
    qed
  qed
qed

lemma recall_main_completes:
  assumes "list_all entry_ok (retry_queue w)" and "gateway_ok env" and "queue_write_ok env"
  shows "\<exists>msg w'. recall_main env w = (Inr msg, w')"
proof -
  from drain_loop_completes [OF assms(1,2)] obtain acc w1 where
    "drain_loop env (retry_queue w)
       \<lparr>success_count = 0, still_failed = [], findings_count = 0\<rparr> w = (Inr acc, w1)"
    by blast
  with assms(3) show ?thesis
    by (simp add: recall_main_def Let_def)
qed

lemma drain_loop_state:
  "drain_loop env q acc w = (Inr acc', w') \<Longrightarrow> w' = spec_drain_state env q w"
proof (induction q arbitrary: acc w)
  case Nil
  then show ?case by simp
next
  case (Cons item rest)
  from drain_loop_Cons_cases [OF Cons.prems]
  consider
    (skip) v where "get_method item (S ''prompt'') (JStr []) = Inr v" "\<not> truthy v"
      "drain_loop env rest acc w = (Inr acc', w')"
  | (rejected) s where "get_method item (S ''prompt'') (JStr []) = Inr (JStr s)" "s \<noteq> []"
      "\<not> should_check_grammar (tables env) s"
      "drain_loop env rest (acc\<lparr>success_count := success_count acc + 1\<rparr>) w = (Inr acc', w')"
  | (failed) s w1 where "get_method item (S ''prompt'') (JStr []) = Inr (JStr s)" "s \<noteq> []"
      "should_check_grammar (tables env) s" "analyze_with_retry env s w = (JNull, w1)"
      "drain_loop env rest (acc\<lparr>still_failed := still_failed acc @ [item]\<rparr>) w1 = (Inr acc', w')"
  | (resolved) s a w1 h w2 where "get_method item (S ''prompt'') (JStr []) = Inr (JStr s)"
      "s \<noteq> []" "should_check_grammar (tables env) s" "analyze_with_retry env s w = (a, w1)"
      "a \<noteq> JNull" "process_analysis env s a w1 = (Inr h, w2)"
      "drain_loop env rest
         (acc\<lparr>success_count := success_count acc + 1,
              findings_count := findings_count acc + (if h then 1 else 0)\<rparr>) w2 = (Inr acc', w')"
    by blast
  then show ?case
  proof cases
    case skip
    from Cons.IH [OF skip(3)] skip(1,2) show ?thesis
      by (cases v) auto
  next
    case rejected
    from Cons.IH [OF rejected(4)] rejected(1,2,3) show ?thesis
      by simp
  next
    case failed
    from Cons.IH [OF failed(5)] failed(1,2,3,4) show ?thesis
      by simp
  next
    case resolved
    from Cons.IH [OF resolved(7)] resolved(1,2,3,4,5,6) show ?thesis
      by simp
  qed
qed

lemma analyze_with_retry_queue:
  "analyze_with_retry env s w = (a, w1) \<Longrightarrow> retry_queue w1 = retry_queue w"
  by (auto simp: analyze_with_retry_eq split: if_splits)

lemma drain_loop_queue:
  "drain_loop env q acc w = (r, w') \<Longrightarrow> retry_queue w' = retry_queue w"
proof (induction q arbitrary: acc w)
  case Nil
  then show ?case by simp
next
  case (Cons item rest)
  show ?case
  proof (cases "get_method item (S ''prompt'') (JStr [])")
    case (Inl e)
    with Cons.prems show ?thesis by simp
  next
    case (Inr v)
    show ?thesis
    proof (cases "truthy v")
      case False
      with Inr Cons.prems Cons.IH show ?thesis by simp
    next
      case True
      show ?thesis
      proof (cases v)
        case (JStr s)
        show ?thesis
        proof (cases "should_check_grammar (tables env) s")
          case False
          with Inr True JStr Cons.prems Cons.IH show ?thesis by simp
        next
          case adm: True
          obtain a w1 where r: "analyze_with_retry env s w = (a, w1)"
            by (cases "analyze_with_retry env s w") auto
          note q1 = analyze_with_retry_queue [OF r]
          show ?thesis
          proof (cases "a = JNull")
            case True
            with Inr \<open>truthy v\<close> JStr adm r Cons.prems
            have "drain_loop env rest (acc\<lparr>still_failed := still_failed acc @ [item]\<rparr>) w1
                    = (r, w')"
              by simp
            from Cons.IH [OF this] q1 show ?thesis by simp
          next
            case False
            obtain pr w2 where pa: "process_analysis env s a w1 = (pr, w2)"
              by (cases "process_analysis env s a w1") auto
            from process_analysis_frame [OF pa] q1 have q2: "retry_queue w2 = retry_queue w"
              by simp
            show ?thesis
            proof (cases pr)
              case (Inl e)
              with Inr \<open>truthy v\<close> JStr adm r False pa Cons.prems q2 show ?thesis
                by auto
            next
              case (Inr h)
              with \<open>get_method item (S ''prompt'') (JStr []) = Inr v\<close> \<open>truthy v\<close> JStr adm r
                False pa Cons.prems
              have "drain_loop env rest
                      (acc\<lparr>success_count := success_count acc + 1,
                           findings_count := findings_count acc + (if h then 1 else 0)\<rparr>) w2
                    = (r, w')"
                by simp
              from Cons.IH [OF this] q2 show ?thesis by simp
            qed
          qed
        qed
      qed (use Inr True Cons.prems in auto)
    qed
  qed
qed

lemma recall_main_Inl:
  assumes "recall_main env w = (Inl e, w')"
  shows "retry_queue w' = retry_queue w"
proof -
  from assms have ne: "retry_queue w \<noteq> []"
    by (auto simp: recall_main_def Let_def)
  obtain r w1 where loop: "drain_loop env (retry_queue w)
      \<lparr>success_count = 0, still_failed = [], findings_count = 0\<rparr> w = (r, w1)"
    by (cases "drain_loop env (retry_queue w)
      \<lparr>success_count = 0, still_failed = [], findings_count = 0\<rparr> w") auto
  from drain_loop_queue [OF loop] have q: "retry_queue w1 = retry_queue w" .
  from assms ne loop have "w' = w1"
    by (cases r) (auto simp: recall_main_def Let_def split: if_splits)
  with q show ?thesis by simp
qed

lemma recall_main_state:
  assumes "recall_main env w = (Inr msg, w')"
  shows "w' = (spec_drain_state env (retry_queue w) w)
                \<lparr>retry_queue := spec_still_queued env (gateway_calls w) (retry_queue w)\<rparr>"
proof (cases "retry_queue w = []")
  case True
  with assms show ?thesis by (auto simp: recall_main_def)
next
  case False
  with assms obtain acc w1 where
    loop: "drain_loop env (retry_queue w)
             \<lparr>success_count = 0, still_failed = [], findings_count = 0\<rparr> w = (Inr acc, w1)"
    and w': "w' = w1\<lparr>retry_queue := still_failed acc\<rparr>"
    by (auto simp: recall_main_def Let_def split: prod.splits sum.splits if_splits)
  from drain_loop_state [OF loop] drain_loop_still_failed [OF loop] w' show ?thesis
    by simp
qed

lemma process_analysis_effect:
  assumes "process_analysis env p a v = (Inr h, v')"
  shows "(h \<longrightarrow> calls v' = calls v @ [LogAppend, DbRecord] \<and>
               length (t_corrections (db v')) = length (t_corrections (db v)) + 1 \<and>
               length (obsidian v') = length (obsidian v) + (if log_write_ok env then 1 else 0)) \<and>
         (\<not> h \<longrightarrow> v' = v)"
proof (cases h)
  case False
  with assms show ?thesis
    by (auto simp: process_analysis_def split: json.splits if_splits prod.splits sum.splits)
next
  case True
  with assms obtain kvs ok v1 cid where a: "a = JObj kvs"
    and obs: "save_to_obsidian env p (JObj kvs) v = (Inr ok, v1)"
    and sdb: "save_to_db env p (dget kvs (S ''user_text'') (JStr p))
               (dget kvs (S ''errors'') (JArr [])) (dget kvs (S ''better_expression'') JNull)
               (dget kvs (S ''summary'') JNull) v1 = (Inr cid, v')"
    by (auto simp: process_analysis_def split: json.splits if_splits prod.splits sum.splits)
  from obs have o1: "db v1 = db v" "calls v1 = calls v @ [LogAppend]"
    "length (obsidian v1) = length (obsidian v) + (if log_write_ok env then 1 else 0)"
    by (auto simp: save_to_obsidian_def Let_def split: if_splits sum.splits)
  from sdb obtain d' where sc: "save_correction (tables env) (clock env (clock_reads v1))
             (date_of (clock env (clock_reads v1 + 1))) p
             (dget kvs (S ''user_text'') (JStr p))
               (dget kvs (S ''errors'') (JArr [])) (dget kvs (S ''better_expression'') JNull)
               (dget kvs (S ''summary'') JNull) (db v1) = (Inr cid, d')"
    and v': "db v' = d'" "calls v' = calls v1 @ [DbRecord]" "obsidian v' = obsidian v1"
    by (auto simp: save_to_db_def split: prod.splits)
  from save_correction_tx_effects [OF save_correction_Inr [OF sc]]
  have "length (t_corrections d') = length (t_corrections (db v1)) + 1"
    by auto
  with o1 v' True show ?thesis by simp
qed

text \<open>
  C6 (as amended). A retry run that completes leaves the state that the specification
  describes: entries are taken in order, an entry that the admission filter rejects is
  dropped, an admitted entry is analyzed once, and a second time after a sleep of two
  seconds only when the first attempt failed; an outcome that is not \<open>None\<close> goes through
  \<open>process_analysis\<close>, which, when it reports findings, has called the log writer and
  then the store and has recorded one correction, and which is the path the hook takes;
  the queue written back holds exactly the entries that failed on both attempts, in
  their original order. A run that raises leaves the queue as it was. The run completes
  when the entries and the gateway are in order and the queue file can be written.
\<close>

theorem drain_and_retry:
  "(recall_main env w = (Inr msg, w') \<longrightarrow>
      w' = (spec_drain_state env (retry_queue w) w)
             \<lparr>retry_queue := spec_still_queued env (gateway_calls w) (retry_queue w)\<rparr> \<and>
      retry_queue w' = spec_still_queued env (gateway_calls w) (retry_queue w) \<and>
      subseq (retry_queue w') (retry_queue w)) \<and>
   (recall_main env w = (Inl e, w') \<longrightarrow> retry_queue w' = retry_queue w) \<and>
   (list_all entry_ok (retry_queue w) \<and> gateway_ok env \<and> queue_write_ok env \<longrightarrow>
      (\<exists>m v. recall_main env w = (Inr m, v))) \<and>
   (\<forall>s v. analyze_with_retry env s v =
      (if analyze_result env (gateway_calls v) s \<noteq> JNull
       then (analyze_result env (gateway_calls v) s,
             v\<lparr>calls := calls v @ [Analyze s], gateway_calls := gateway_calls v + 1\<rparr>)
       else (analyze_result env (gateway_calls v + 1) s,
             v\<lparr>calls := calls v @ [Analyze s, Sleep 2, Analyze s],
               gateway_calls := gateway_calls v + 2\<rparr>))) \<and>
   (\<forall>p a v h v'. process_analysis env p a v = (Inr h, v') \<longrightarrow>
      (h \<longrightarrow> calls v' = calls v @ [LogAppend, DbRecord] \<and>
             length (t_corrections (db v')) = length (t_corrections (db v)) + 1 \<and>
             length (obsidian v') = length (obsidian v) + (if log_write_ok env then 1 else 0)) \<and>
      (\<not> h \<longrightarrow> v' = v)) \<and>
   (\<forall>data p kvs v.
      py_or (dget data (S ''prompt'') (JStr [])) (dget data (S ''user_prompt'') (JStr []))
        = JStr p \<and>
      should_check_grammar (tables env) p \<and>
      analyze_result env (gateway_calls v) p = JObj kvs \<longrightarrow>
      snd (check_grammar_try env (JObj data) v) =
        snd (process_analysis env p (JObj kvs) (snd (analyze_grammar env p v))))"
proof -
  have a: "w' = (spec_drain_state env (retry_queue w) w)
             \<lparr>retry_queue := spec_still_queued env (gateway_calls w) (retry_queue w)\<rparr> \<and>
      retry_queue w' = spec_still_queued env (gateway_calls w) (retry_queue w) \<and>
      subseq (retry_queue w') (retry_queue w)"
    if run: "recall_main env w = (Inr msg, w')"
  proof -
    have q: "retry_queue w' = spec_still_queued env (gateway_calls w) (retry_queue w)"
      using recall_main_Inr [OF run] by simp
    then have "subseq (retry_queue w') (retry_queue w)"
      by (simp add: subseq_spec_still_queued)
    with q recall_main_state [OF run] show ?thesis by blast
  qed
  have b: "retry_queue w' = retry_queue w" if "recall_main env w = (Inl e, w')"
    using recall_main_Inl [OF that] .
  have c: "\<exists>m v. recall_main env w = (Inr m, v)"
    if "list_all entry_ok (retry_queue w) \<and> gateway_ok env \<and> queue_write_ok env"
    using recall_main_completes [of w env] that by blast
  show ?thesis
    using a b c analyze_with_retry_eq process_analysis_effect check_grammar_try_routes
    by blast
qed

lemma flaky_results:
  "analyze_result flaky_env 0 s = JNull" "analyze_result flaky_env 1 s = JNull"
  "analyze_result flaky_env 2 s = JNull" "analyze_result flaky_env 3 s = sample_analysis"
  "analyze_result flaky_env (Suc 0) s = JNull" "analyze_result flaky_env (Suc (Suc 0)) s = JNull"
  "analyze_result flaky_env (Suc (Suc (Suc 0))) s = sample_analysis"
  using sample_parse
  by (simp_all add: analyze_result_def flaky_env_def online_env_def S_def)

lemma flaky_fields:
  "tables flaky_env = sample_ucd" "mkdir_ok flaky_env" "log_write_ok flaky_env"
  "queue_write_ok flaky_env" "clock flaky_env = (\<lambda>n. (739923, 43200000000 + n))"
  by (simp_all add: flaky_env_def online_env_def)

lemma sample_drain_run: "fst (recall_main flaky_env queue_world) = Inr (Retried 4 2 1)"
  by (simp add: recall_main_def queue_world_def sample_queue_def empty_world_def
      analyze_with_retry_eq flaky_results flaky_fields sample_text_def sample_analysis_def
      process_analysis_def save_to_obsidian_def save_to_db_def log_lines_def py_or_def
      subscript_def date_of_def db_eval filter_eval)

lemma sample_still_queued:
  "spec_still_queued flaky_env 0 sample_queue =
     [JObj [(S ''prompt'', JStr (S ''She go to school yesterday''))]]"
  by (simp add: sample_queue_def flaky_results flaky_fields sample_text_def get_method_def
      dget_def sample_analysis_def filter_eval)

lemma flaky_gateway_ok: "gateway_ok flaky_env"
proof -
  have ok: "process_ok flaky_env sample_analysis"
    by (simp add: process_ok_def sample_analysis_def dget_def S_def finding_storable_def
        finding_loggable_def bindable_def flaky_fields)
  have "analyze_result flaky_env n s = JNull \<or> analyze_result flaky_env n s = sample_analysis"
    for n s
    using sample_parse
    by (simp add: analyze_result_def flaky_env_def online_env_def S_def)
  with ok show ?thesis
    unfolding gateway_ok_def by metis
qed

lemma sample_queue_ok: "list_all entry_ok (retry_queue queue_world)"
  by (simp add: queue_world_def sample_queue_def entry_ok_def dget_def S_def sample_text_def)

lemma sample_drain_state:
  "calls (spec_drain_state flaky_env sample_queue queue_world) =
     [Analyze (S ''She go to school yesterday''), Sleep 2,
      Analyze (S ''She go to school yesterday''),
      Analyze sample_text, Sleep 2, Analyze sample_text, LogAppend, DbRecord]"
  "length (t_corrections (db (spec_drain_state flaky_env sample_queue queue_world))) = 1"
  "length (obsidian (spec_drain_state flaky_env sample_queue queue_world)) = 1"
  "total_corrections (get_daily_stats 739923
     (db (spec_drain_state flaky_env sample_queue queue_world))) = 1"
  by (simp_all add: queue_world_def sample_queue_def empty_world_def
      analyze_with_retry_eq flaky_results flaky_fields sample_text_def sample_analysis_def
      process_analysis_def save_to_obsidian_def save_to_db_def log_lines_def py_or_def
      subscript_def date_of_def db_eval filter_eval)

theorem drain_and_retry_witness:
  "list_all entry_ok (retry_queue queue_world) \<and> gateway_ok flaky_env \<and>
   queue_write_ok flaky_env \<and>
   fst (recall_main flaky_env queue_world) = Inr (Retried 4 2 1) \<and>
   retry_queue (snd (recall_main flaky_env queue_world)) =
     [JObj [(S ''prompt'', JStr (S ''She go to school yesterday''))]] \<and>
   calls (snd (recall_main flaky_env queue_world)) =
     [Analyze (S ''She go to school yesterday''), Sleep 2,
      Analyze (S ''She go to school yesterday''),
      Analyze sample_text, Sleep 2, Analyze sample_text, LogAppend, DbRecord] \<and>
   length (t_corrections (db (snd (recall_main flaky_env queue_world)))) = 1 \<and>
   length (obsidian (snd (recall_main flaky_env queue_world))) = 1 \<and>
   total_corrections (get_daily_stats 739923 (db (snd (recall_main flaky_env queue_world)))) = 1"
proof -
  have q: "gateway_calls queue_world = 0" "retry_queue queue_world = sample_queue"
    by (simp_all add: queue_world_def empty_world_def)
  have run: "recall_main flaky_env queue_world =
               (Inr (Retried 4 2 1), snd (recall_main flaky_env queue_world))"
    using sample_drain_run by (metis prod.collapse)
  from drain_and_retry [of flaky_env queue_world "Retried 4 2 1"
      "snd (recall_main flaky_env queue_world)"] run
  have st: "snd (recall_main flaky_env queue_world) =
              (spec_drain_state flaky_env (retry_queue queue_world) queue_world)
                \<lparr>retry_queue := spec_still_queued flaky_env (gateway_calls queue_world)
                                  (retry_queue queue_world)\<rparr>"
    by blast
  have "retry_queue (snd (recall_main flaky_env queue_world)) =
          [JObj [(S ''prompt'', JStr (S ''She go to school yesterday''))]]"
    by (subst st) (simp add: q sample_still_queued)
  moreover have "calls (snd (recall_main flaky_env queue_world)) =
     [Analyze (S ''She go to school yesterday''), Sleep 2,
      Analyze (S ''She go to school yesterday''),
      Analyze sample_text, Sleep 2, Analyze sample_text, LogAppend, DbRecord]"
    by (subst st) (simp add: q sample_drain_state)
  moreover have "length (t_corrections (db (snd (recall_main flaky_env queue_world)))) = 1"
    by (subst st) (simp add: q sample_drain_state)
  moreover have "length (obsidian (snd (recall_main flaky_env queue_world))) = 1"
    by (subst st) (simp add: q sample_drain_state)
  moreover have "total_corrections (get_daily_stats 739923
                   (db (snd (recall_main flaky_env queue_world)))) = 1"
    by (subst st) (simp add: q sample_drain_state)
  ultimately show ?thesis
    using sample_queue_ok flaky_gateway_ok flaky_fields(4) sample_drain_run by simp
qed

text \<open>
  The claim as worded fails when recording raises: with a log directory that cannot be
  created, the analysis of the queued sample message succeeds, the log writer raises,
  the run ends with that exception, and the entry, which did not fail, is still queued.
\<close>

theorem resolved_entry_stays_queued_counterexample:
  "should_check_grammar (tables readonly_env) sample_text \<and>
   analyze_result readonly_env (gateway_calls single_queue_world) sample_text = sample_analysis \<and>
   sample_analysis \<noteq> JNull \<and>
   fst (recall_main readonly_env single_queue_world) = Inl OSError \<and>
   retry_queue (snd (recall_main readonly_env single_queue_world)) =
     [JObj [(S ''prompt'', JStr sample_text)]]"
proof -
  have r: "analyze_result readonly_env n s = sample_analysis" for n s
    using sample_parse
    by (simp add: analyze_result_def readonly_env_def online_env_def S_def)
  have f: "tables readonly_env = sample_ucd" "\<not> mkdir_ok readonly_env"
    by (simp_all add: readonly_env_def online_env_def)
  have n: "sample_analysis \<noteq> JNull"
    by (simp add: sample_analysis_def)
  have run: "fst (recall_main readonly_env single_queue_world) = Inl OSError"
    by (simp add: recall_main_def single_queue_world_def empty_world_def
        analyze_with_retry_eq r f sample_text_def sample_analysis_def
        process_analysis_def save_to_obsidian_def date_of_def db_eval filter_eval)
  then have "recall_main readonly_env single_queue_world =
               (Inl OSError, snd (recall_main readonly_env single_queue_world))"
    by (metis prod.collapse)
  from recall_main_Inl [OF this]
  have "retry_queue (snd (recall_main readonly_env single_queue_world)) =
          [JObj [(S ''prompt'', JStr sample_text)]]"
    by (simp add: single_queue_world_def)
  with sample_admitted r n run show ?thesis by simp
qed



end
